theory Spec2Isabelle
  imports Main "HOL-Library.Word"
begin

unbundle bit_operations_syntax

section \<open>The MIDI writer of src/lib/vgm.c\<close>

text \<open>
  The file keeps the API of a former VGM logger (\<open>vgm_open\<close>, \<open>vgm_write\<close>,
  \<open>vgm_delay\<close>, \<open>vgm_close\<close>, ...) and produces a single-track Standard MIDI File in
  a heap buffer that grows by \<open>realloc\<close>. All of its state is in C globals. The
  embedding below passes them around as one record, keeps the C integer widths
  (\<open>uint8_t\<close>, \<open>uint16_t\<close>, \<open>uint32_t\<close> as words), and makes every access to memory
  explicit, so that a null dereference, a write past the end of the allocation or a
  use of a block that \<open>realloc\<close> has released is a value of the model (a \<open>fault\<close>) and
  not an unspecified term.

  Integer conventions are those of an LP64 platform: \<open>ptrdiff_t\<close> and \<open>size_t\<close> have
  64 bits, so \<open>buffer_size - (data - vgmdata)\<close> is computed without wrap-around (as an
  \<open>int\<close>), while \<open>buffer_size * 2\<close> is a 32-bit unsigned product.
\<close>

type_synonym u8 = "8 word"
type_synonym u16 = "16 word"
type_synonym u32 = "32 word"

subsection \<open>Memory\<close>

text \<open>
  A pointer is \<open>NULL\<close> or a block of the heap with an offset into it. A block has the
  size it was allocated with and its bytes. \<open>malloc\<close> and \<open>realloc\<close> are not decided
  by the program: the outcome of the \<open>n\<close>-th call is read from \<open>alloc_oracle\<close>, and
  the bytes of fresh memory, which C leaves indeterminate, from \<open>junk\<close>.
\<close>

datatype ptr = Null | Ptr nat nat

record block =
  bsize :: nat
  bytes :: "nat \<Rightarrow> u8"

datatype alloc_outcome = Fails | InPlace | Relocates

datatype fault =
    NullDeref       \<comment> \<open>access through, or arithmetic on, a null pointer\<close>
  | OutOfBounds     \<comment> \<open>access or pointer past the end of its block\<close>
  | UseAfterFree    \<comment> \<open>access through a pointer into a released block\<close>
  | StalePointer    \<comment> \<open>difference of pointers into two different blocks\<close>
  | InvalidFree     \<comment> \<open>\<open>free\<close> or \<open>realloc\<close> of something \<open>malloc\<close> did not return\<close>
  | InvalidState    \<comment> \<open>the error the specification names; no path of the source returns it\<close>

record vgm_state =
  buffer_size :: u32
  delayq :: u32
  vgmdata :: ptr
  data :: ptr
  filename :: "string option"
  track_len_ptr :: ptr
  track_start_ptr :: ptr
  heap :: "nat \<Rightarrow> block option"
  next_block :: nat
  alloc_oracle :: "nat \<Rightarrow> alloc_outcome"
  alloc_calls :: nat
  junk :: "nat \<Rightarrow> u8"
  files :: "(string \<times> u8 list) list"

text \<open>Statements in sequence; the first fault ends the run.\<close>

fun steps :: "('s \<Rightarrow> fault + 's) list \<Rightarrow> 's \<Rightarrow> fault + 's" where
  "steps [] s = Inr s"
| "steps (f # fs) s = (case f s of Inl e \<Rightarrow> Inl e | Inr s' \<Rightarrow> steps fs s')"

text \<open>\<open>*p = v\<close> and \<open>p[i] = v\<close>.\<close>

definition store_u8 :: "ptr \<Rightarrow> nat \<Rightarrow> u8 \<Rightarrow> vgm_state \<Rightarrow> fault + vgm_state" where
  "store_u8 p i v s =
     (case p of
        Null \<Rightarrow> Inl NullDeref
      | Ptr b off \<Rightarrow>
          (case heap s b of
             None \<Rightarrow> Inl UseAfterFree
           | Some blk \<Rightarrow>
               if off + i < bsize blk
               then Inr (s\<lparr>heap := (heap s)(b \<mapsto> blk\<lparr>bytes := (bytes blk)(off + i := v)\<rparr>)\<rparr>)
               else Inl OutOfBounds))"

text \<open>\<open>memcpy(p, src, len)\<close>, with \<open>src\<close> the \<open>len\<close> bytes read.\<close>

definition memcpy_to :: "ptr \<Rightarrow> u8 list \<Rightarrow> vgm_state \<Rightarrow> fault + vgm_state" where
  "memcpy_to p src s =
     (case p of
        Null \<Rightarrow> Inl NullDeref
      | Ptr b off \<Rightarrow>
          (case heap s b of
             None \<Rightarrow> Inl UseAfterFree
           | Some blk \<Rightarrow>
               if off + length src \<le> bsize blk
               then Inr (s\<lparr>heap := (heap s)(b \<mapsto> blk\<lparr>bytes :=
                      (\<lambda>i. if off \<le> i \<and> i < off + length src then src ! (i - off)
                           else bytes blk i)\<rparr>)\<rparr>)
               else Inl OutOfBounds))"

text \<open>\<open>memset(p, 0, n)\<close>.\<close>

definition memset_zero :: "ptr \<Rightarrow> nat \<Rightarrow> vgm_state \<Rightarrow> fault + vgm_state" where
  "memset_zero p n s =
     (case p of
        Null \<Rightarrow> Inl NullDeref
      | Ptr b off \<Rightarrow>
          (case heap s b of
             None \<Rightarrow> Inl UseAfterFree
           | Some blk \<Rightarrow>
               if off + n \<le> bsize blk
               then Inr (s\<lparr>heap := (heap s)(b \<mapsto> blk\<lparr>bytes :=
                      (\<lambda>i. if off \<le> i \<and> i < off + n then 0 else bytes blk i)\<rparr>)\<rparr>)
               else Inl OutOfBounds))"

text \<open>
  \<open>p + n\<close>. C allows a pointer into a block or one past its end; anything further
  is a fault.
\<close>

definition ptr_add :: "ptr \<Rightarrow> nat \<Rightarrow> vgm_state \<Rightarrow> fault + ptr" where
  "ptr_add p n s =
     (case p of
        Null \<Rightarrow> Inl NullDeref
      | Ptr b off \<Rightarrow>
          (case heap s b of
             None \<Rightarrow> Inl UseAfterFree
           | Some blk \<Rightarrow> if off + n \<le> bsize blk then Inr (Ptr b (off + n)) else Inl OutOfBounds))"

text \<open>
  \<open>p - q\<close>, a \<open>ptrdiff_t\<close>. Within one block it is the difference of the offsets,
  also when the block has just been released by \<open>realloc\<close> (\<open>write_u8\<close> computes
  \<open>data - vgmdata\<close> from the old values after a successful \<open>realloc\<close>; the model
  gives that the value every machine computes). Pointers into two different blocks
  have no meaningful difference.
\<close>

definition ptr_diff :: "ptr \<Rightarrow> ptr \<Rightarrow> fault + int" where
  "ptr_diff p q =
     (case (p, q) of
        (Ptr b i, Ptr c j) \<Rightarrow> if b = c then Inr (int i - int j) else Inl StalePointer
      | _ \<Rightarrow> Inl NullDeref)"

text \<open>\<open>malloc(n)\<close>: the pointer returned and the state after the call.\<close>

definition malloc :: "nat \<Rightarrow> vgm_state \<Rightarrow> ptr \<times> vgm_state" where
  "malloc n s =
     (let s1 = s\<lparr>alloc_calls := alloc_calls s + 1\<rparr>
      in case alloc_oracle s (alloc_calls s) of
           Fails \<Rightarrow> (Null, s1)
         | _ \<Rightarrow> (Ptr (next_block s) 0,
                 s1\<lparr>heap := (heap s)(next_block s \<mapsto> \<lparr>bsize = n, bytes = junk s\<rparr>),
                    next_block := next_block s + 1\<rparr>))"

text \<open>
  \<open>realloc(p, n)\<close>. On failure it returns \<open>NULL\<close> and leaves the block alone. On
  success the block has size \<open>n\<close> and keeps its bytes up to the smaller of the old
  and the new size; it stays where it is, or it moves to a new block and the old one
  is released.
\<close>

definition resized :: "block \<Rightarrow> nat \<Rightarrow> (nat \<Rightarrow> u8) \<Rightarrow> block" where
  "resized blk n jk =
     \<lparr>bsize = n, bytes = (\<lambda>i. if i < min n (bsize blk) then bytes blk i else jk i)\<rparr>"

definition realloc :: "ptr \<Rightarrow> nat \<Rightarrow> vgm_state \<Rightarrow> fault + (ptr \<times> vgm_state)" where
  "realloc p n s =
     (case p of
        Null \<Rightarrow> Inr (malloc n s)
      | Ptr b off \<Rightarrow>
          (case heap s b of
             None \<Rightarrow> Inl InvalidFree
           | Some blk \<Rightarrow>
               if off \<noteq> 0 then Inl InvalidFree
               else
                 (let s1 = s\<lparr>alloc_calls := alloc_calls s + 1\<rparr>
                  in case alloc_oracle s (alloc_calls s) of
                       Fails \<Rightarrow> Inr (Null, s1)
                     | InPlace \<Rightarrow>
                         Inr (Ptr b 0, s1\<lparr>heap := (heap s)(b \<mapsto> resized blk n (junk s))\<rparr>)
                     | Relocates \<Rightarrow>
                         Inr (Ptr (next_block s) 0,
                              s1\<lparr>heap := (heap s)(b := None,
                                                 next_block s \<mapsto> resized blk n (junk s)),
                                 next_block := next_block s + 1\<rparr>))))"

text \<open>\<open>free(p)\<close>.\<close>

definition free :: "ptr \<Rightarrow> vgm_state \<Rightarrow> fault + vgm_state" where
  "free p s =
     (case p of
        Null \<Rightarrow> Inr s
      | Ptr b off \<Rightarrow>
          (case heap s b of
             None \<Rightarrow> Inl InvalidFree
           | Some blk \<Rightarrow> if off \<noteq> 0 then Inl InvalidFree
                         else Inr (s\<lparr>heap := (heap s)(b := None)\<rparr>)))"

text \<open>
  Modelled from the spec: \<open>write_file\<close> is declared in \<open>fileio.h\<close>, which is not
  among the sources. The specification (section 6) describes it as the persistence
  primitive that stores the finished buffer under the given name; the model appends
  the name and the \<open>n\<close> bytes read from \<open>p\<close> to the list \<open>files\<close>.
\<close>

definition write_file :: "string option \<Rightarrow> ptr \<Rightarrow> int \<Rightarrow> vgm_state \<Rightarrow> fault + vgm_state" where
  "write_file fn p n s =
     (case fn of
        None \<Rightarrow> Inl NullDeref
      | Some name \<Rightarrow>
          (case p of
             Null \<Rightarrow> Inl NullDeref
           | Ptr b off \<Rightarrow>
               (case heap s b of
                  None \<Rightarrow> Inl UseAfterFree
                | Some blk \<Rightarrow>
                    if 0 \<le> n \<and> off + nat n \<le> bsize blk
                    then Inr (s\<lparr>files := files s @ [(name, map (bytes blk) [off..<off + nat n])]\<rparr>)
                    else Inl OutOfBounds)))"

subsection \<open>Internal helpers (lines 58 to 120)\<close>

definition MIDI_BUFFER :: nat where
  "MIDI_BUFFER = 50000000"

text \<open>
  The growth step that ends \<open>write_u8\<close> and \<open>write_bytes\<close>: when fewer than 1024
  bytes remain, ask for a block of \<open>buffer_size * 2\<close> bytes (a \<open>uint32_t\<close> product),
  and if that succeeds, double \<open>buffer_size\<close> and move \<open>vgmdata\<close> and \<open>data\<close>.
  \<open>write_bytes\<close> reads \<open>offset = data - vgmdata\<close> before the call of \<open>realloc\<close> and
  \<open>write_u8\<close> after it; \<open>ptr_diff\<close> reads the two offsets only, so both are the
  \<open>d\<close> of the test.
\<close>

definition grow_if_needed :: "vgm_state \<Rightarrow> fault + vgm_state" where
  "grow_if_needed s =
     (case ptr_diff (data s) (vgmdata s) of
        Inl e \<Rightarrow> Inl e
      | Inr d \<Rightarrow>
          if int (unat (buffer_size s)) - d < 1024
          then (case realloc (vgmdata s) (unat (buffer_size s * 2)) s of
                  Inl e \<Rightarrow> Inl e
                | Inr (temp, s1) \<Rightarrow>
                    if temp \<noteq> Null
                    then (let offset = nat d;
                              s2 = s1\<lparr>buffer_size := buffer_size s1 * 2, vgmdata := temp\<rparr>
                          in case ptr_add (vgmdata s2) offset s2 of
                               Inl e \<Rightarrow> Inl e
                             | Inr p \<Rightarrow> Inr (s2\<lparr>data := p\<rparr>))
                    else Inr s1)
          else Inr s)"

definition write_u8 :: "u8 \<Rightarrow> vgm_state \<Rightarrow> fault + vgm_state" where
  "write_u8 v s =
     (case store_u8 (data s) 0 v s of
        Inl e \<Rightarrow> Inl e
      | Inr s1 \<Rightarrow>
          (case ptr_add (data s1) 1 s1 of
             Inl e \<Rightarrow> Inl e
           | Inr p \<Rightarrow> grow_if_needed (s1\<lparr>data := p\<rparr>)))"

definition write_bytes :: "u8 list \<Rightarrow> vgm_state \<Rightarrow> fault + vgm_state" where
  "write_bytes src s =
     (case memcpy_to (data s) src s of
        Inl e \<Rightarrow> Inl e
      | Inr s1 \<Rightarrow>
          (case ptr_add (data s1) (length src) s1 of
             Inl e \<Rightarrow> Inl e
           | Inr p \<Rightarrow> grow_if_needed (s1\<lparr>data := p\<rparr>)))"

definition write_be32 :: "u32 \<Rightarrow> vgm_state \<Rightarrow> fault + vgm_state" where
  "write_be32 v =
     steps [write_u8 (ucast (drop_bit 24 v AND 0xFF)),
            write_u8 (ucast (drop_bit 16 v AND 0xFF)),
            write_u8 (ucast (drop_bit 8 v AND 0xFF)),
            write_u8 (ucast (drop_bit 0 v AND 0xFF))]"

definition write_be16 :: "u16 \<Rightarrow> vgm_state \<Rightarrow> fault + vgm_state" where
  "write_be16 v =
     steps [write_u8 (ucast (drop_bit 8 v AND 0xFF)),
            write_u8 (ucast (drop_bit 0 v AND 0xFF))]"

text \<open>
  \<open>write_varlen\<close>: the \<open>while\<close> loop fills the local array \<open>buffer\<close> from index 1 on,
  least significant group first; the \<open>for\<close> loop then writes it from the last index
  down to 0.
\<close>

function varlen_loop :: "u32 \<Rightarrow> u8 list \<Rightarrow> u8 list" where
  "varlen_loop v buffer =
     (if v \<noteq> 0
      then varlen_loop (drop_bit 7 v) (buffer @ [ucast (0x80 OR (v AND 0x7F))])
      else buffer)"
  by pat_completeness auto
termination
proof (relation "measure (\<lambda>(v, buffer). unat v)")
  show "wf (measure (\<lambda>(v, buffer). unat v))" by simp
next
  fix v :: u32 and buffer :: "u8 list"
  assume "v \<noteq> 0"
  then have "0 < unat v" by (simp add: unat_gt_0)
  then have "unat v div 2 ^ 7 < unat v" by simp
  then show "((drop_bit 7 v, buffer @ [ucast (0x80 OR (v AND 0x7F))]), (v, buffer))
               \<in> measure (\<lambda>(v, buffer). unat v)"
    by (simp add: drop_bit_eq_div unat_div)
qed

declare varlen_loop.simps [simp del]

definition varlen_bytes :: "u32 \<Rightarrow> u8 list" where
  "varlen_bytes v = rev (varlen_loop (drop_bit 7 v) [ucast (v AND 0x7F)])"

definition write_varlen :: "u32 \<Rightarrow> vgm_state \<Rightarrow> fault + vgm_state" where
  "write_varlen v = steps (map write_u8 (varlen_bytes v))"

subsection \<open>Public API (lines 125 to 361)\<close>

text \<open>
  Text is kept as bytes. A C string ends at its first NUL; \<open>ascii\<close> gives the bytes
  of a literal of the source.
\<close>

definition ascii :: "string \<Rightarrow> u8 list" where
  "ascii cs = map (\<lambda>c. of_nat (of_char c)) cs"

definition c_str :: "u8 list \<Rightarrow> u8 list" where
  "c_str cs = takeWhile (\<lambda>c. c \<noteq> 0) cs"

text \<open>
  The \<open>malloc\<close> of the file name. File names stay strings outside the byte heap, so
  only the success of the call is kept.
\<close>

definition malloc_chars :: "nat \<Rightarrow> vgm_state \<Rightarrow> bool \<times> vgm_state" where
  "malloc_chars n s =
     (alloc_oracle s (alloc_calls s) \<noteq> Fails, s\<lparr>alloc_calls := alloc_calls s + 1\<rparr>)"

definition vgm_open :: "string \<Rightarrow> vgm_state \<Rightarrow> fault + vgm_state" where
  "vgm_open fname s =
     (let flen = length fname;
          (ok, s1) = malloc_chars (flen + 8) s
      in if \<not> ok then Inr (s1\<lparr>filename := None\<rparr>)
         else
           (let name = (if flen < 4 \<or> drop (flen - 4) fname \<noteq> ''.mid''
                        then fname @ ''.mid'' else fname);
                s2 = s1\<lparr>filename := Some name, delayq := 0\<rparr>;
                (p, s3) = malloc MIDI_BUFFER s2;
                s4 = s3\<lparr>vgmdata := p\<rparr>
            in if p = Null then Inr s4
               else
                 steps
                   [\<lambda>t. Inr (t\<lparr>data := vgmdata t, buffer_size := of_nat MIDI_BUFFER\<rparr>),
                    \<lambda>t. memset_zero (vgmdata t) (unat (buffer_size t)) t,
                    write_bytes (ascii ''MThd''),
                    write_be32 6,
                    write_be16 0,
                    write_be16 1,
                    write_be16 480,
                    write_bytes (ascii ''MTrk''),
                    \<lambda>t. Inr (t\<lparr>track_len_ptr := data t\<rparr>),
                    write_be32 0,
                    \<lambda>t. Inr (t\<lparr>track_start_ptr := data t\<rparr>)]
                   s4))"

definition flush_delay_get_ticks :: "vgm_state \<Rightarrow> u32 \<times> vgm_state" where
  "flush_delay_get_ticks s = (delayq s div 10, s\<lparr>delayq := 0\<rparr>)"

text \<open>
  The statement that opens \<open>vgm_write\<close> (lines 194 to 200), \<open>vgm_write_tag\<close> (298 to
  303) and \<open>vgm_close\<close> (329 to 334), the same text in the three functions.
\<close>

definition write_pending_delta :: "vgm_state \<Rightarrow> fault + vgm_state" where
  "write_pending_delta s =
     (if 10 \<le> delayq s
      then (let (ticks, s1) = flush_delay_get_ticks s in write_varlen ticks s1)
      else write_varlen 0 s)"

definition vgm_write :: "u8 \<Rightarrow> u8 \<Rightarrow> u16 \<Rightarrow> u16 \<Rightarrow> vgm_state \<Rightarrow> fault + vgm_state" where
  "vgm_write command port reg value s =
     (case write_pending_delta s of
        Inl e \<Rightarrow> Inl e
      | Inr s1 \<Rightarrow>
          (let status = command AND 0xF0;
               channel = port AND 0x0F
           in if status = 0x90 then
                steps [write_u8 (0x90 OR channel),
                       write_u8 (ucast (reg AND 0x7F)),
                       write_u8 (ucast (value AND 0x7F))] s1
              else if status = 0x80 then
                steps [write_u8 (0x80 OR channel),
                       write_u8 (ucast (reg AND 0x7F)),
                       write_u8 (ucast (value AND 0x7F))] s1
              else if status = 0xB0 then
                steps [write_u8 (0xB0 OR channel),
                       write_u8 (ucast (reg AND 0x7F)),
                       write_u8 (ucast (value AND 0x7F))] s1
              else if status = 0xC0 then
                steps [write_u8 (0xC0 OR channel),
                       write_u8 (ucast (value AND 0x7F))] s1
              else if status = 0xE0 then
                (let bend = value AND 0x3FFF;
                     lsb = (ucast (bend AND 0x7F) :: u8);
                     msb = (ucast (drop_bit 7 bend AND 0x7F) :: u8)
                 in steps [write_u8 (0xE0 OR channel), write_u8 lsb, write_u8 msb] s1)
              else if command = 0xFF then
                (let meta_type = (ucast (reg AND 0xFF) :: u8)
                 in if meta_type = 0x2F
                    then steps [write_u8 0xFF, write_u8 0x2F, write_u8 0x00] s1
                    else Inr s1)
              else if command = 0xF0 \<or> command = 0xF7 then Inr s1
              else Inr s1))"

definition vgm_delay :: "u32 \<Rightarrow> vgm_state \<Rightarrow> fault + vgm_state" where
  "vgm_delay delay s = Inr (s\<lparr>delayq := delayq s + delay\<rparr>)"

definition vgm_poke32 :: "32 word \<Rightarrow> u32 \<Rightarrow> vgm_state \<Rightarrow> fault + vgm_state" where
  "vgm_poke32 offset d s = Inr s"

definition vgm_poke8 :: "32 word \<Rightarrow> u8 \<Rightarrow> vgm_state \<Rightarrow> fault + vgm_state" where
  "vgm_poke8 offset d s = Inr s"

definition vgm_datablock ::
  "u8 \<Rightarrow> u32 \<Rightarrow> ptr \<Rightarrow> u32 \<Rightarrow> u32 \<Rightarrow> 32 word \<Rightarrow> vgm_state \<Rightarrow> fault + vgm_state" where
  "vgm_datablock dbtype dbsize datablock maxsize mask_arg flags s = Inr s"

definition vgm_setloop :: "vgm_state \<Rightarrow> fault + vgm_state" where
  "vgm_setloop s = Inr s"

text \<open>
  \<open>vgm_write_tag\<close>. \<open>gamename\<close> may be \<open>NULL\<close>; \<open>songid\<close> is an \<open>int\<close>; \<open>ts\<close> is the
  text that \<open>strftime\<close> made of the current time, an input from outside the
  program. The dashes of the two format strings are the three bytes E2 80 94 of the
  source file. \<open>songid & 0x7FF\<close> is below 0x800, so \<open>%03x\<close> prints exactly three
  digits. \<open>snprintf\<close> keeps at most 511 bytes of the text.
\<close>

definition em_dash :: "u8 list" where
  "em_dash = [0xE2, 0x80, 0x94]"

definition hex_digit :: "u32 \<Rightarrow> u8" where
  "hex_digit d = (if d < 10 then 0x30 + ucast d else 0x61 + ucast (d - 10))"

definition fmt_03x :: "u32 \<Rightarrow> u8 list" where
  "fmt_03x v = [hex_digit (drop_bit 8 v AND 0xF), hex_digit (drop_bit 4 v AND 0xF),
                hex_digit (v AND 0xF)]"

definition tag_text :: "u8 list option \<Rightarrow> 32 word \<Rightarrow> u8 list \<Rightarrow> u8 list" where
  "tag_text gamename songid ts =
     (let name = (case gamename of None \<Rightarrow> [] | Some g \<Rightarrow> c_str g)
      in take 511
           (if 0 \<le> sint songid
            then name @ ascii '' '' @ em_dash @ ascii '' Song ID: '' @ fmt_03x (songid AND 0x7FF)
                 @ ascii '' '' @ em_dash @ ascii '' Generated: '' @ c_str ts
            else name @ ascii '' '' @ em_dash @ ascii '' Generated: '' @ c_str ts))"

definition vgm_write_tag ::
  "u8 list option \<Rightarrow> 32 word \<Rightarrow> u8 list \<Rightarrow> vgm_state \<Rightarrow> fault + vgm_state" where
  "vgm_write_tag gamename songid ts =
     (let buf = tag_text gamename songid ts;
          len = length buf
      in steps [write_pending_delta,
                write_u8 0xFF,
                write_u8 0x01,
                write_varlen (of_nat len),
                write_bytes buf])"

definition vgm_close :: "vgm_state \<Rightarrow> fault + vgm_state" where
  "vgm_close =
     steps
       [write_pending_delta,
        write_u8 0xFF,
        write_u8 0x2F,
        write_u8 0x00,
        \<lambda>s. if track_len_ptr s \<noteq> Null \<and> track_start_ptr s \<noteq> Null
             then (case ptr_diff (data s) (track_start_ptr s) of
                     Inl e \<Rightarrow> Inl e
                   | Inr d \<Rightarrow>
                       (let track_length = (word_of_int d :: u32)
                        in steps
                             [store_u8 (track_len_ptr s) 0 (ucast (drop_bit 24 track_length AND 0xFF)),
                              store_u8 (track_len_ptr s) 1 (ucast (drop_bit 16 track_length AND 0xFF)),
                              store_u8 (track_len_ptr s) 2 (ucast (drop_bit 8 track_length AND 0xFF)),
                              store_u8 (track_len_ptr s) 3 (ucast (drop_bit 0 track_length AND 0xFF))]
                             s))
             else Inr s,
        \<lambda>s. case ptr_diff (data s) (vgmdata s) of
               Inl e \<Rightarrow> Inl e
             | Inr total_size \<Rightarrow> write_file (filename s) (vgmdata s) total_size s,
        \<lambda>s. free (vgmdata s) s,
        \<lambda>s. Inr (s\<lparr>vgmdata := Null, data := Null, filename := None\<rparr>)]"

subsection \<open>Runs of the API\<close>

text \<open>
  The globals as the C runtime leaves them before \<open>main\<close>: static storage is
  zero, no block is allocated and nothing has been written.
\<close>

definition power_on :: "(nat \<Rightarrow> alloc_outcome) \<Rightarrow> (nat \<Rightarrow> u8) \<Rightarrow> vgm_state" where
  "power_on orc jk =
     \<lparr>buffer_size = 0, delayq = 0, vgmdata = Null, data = Null, filename = None,
      track_len_ptr = Null, track_start_ptr = Null, heap = (\<lambda>b. None), next_block = 0,
      alloc_oracle = orc, alloc_calls = 0, junk = jk, files = []\<rparr>"

text \<open>The calls a client makes between \<open>vgm_open\<close> and \<open>vgm_close\<close>.\<close>

datatype call =
    Write u8 u8 u16 u16
  | WriteTag "u8 list option" "32 word" "u8 list"
  | Delay u32
  | Poke32 "32 word" u32
  | Poke8 "32 word" u8
  | Datablock u8 u32 ptr u32 u32 "32 word"
  | Setloop

fun exec :: "call \<Rightarrow> vgm_state \<Rightarrow> fault + vgm_state" where
  "exec (Write command port reg value) = vgm_write command port reg value"
| "exec (WriteTag gamename songid ts) = vgm_write_tag gamename songid ts"
| "exec (Delay delay) = vgm_delay delay"
| "exec (Poke32 offset d) = vgm_poke32 offset d"
| "exec (Poke8 offset d) = vgm_poke8 offset d"
| "exec (Datablock dbtype dbsize datablock maxsize mask_arg flags) =
     vgm_datablock dbtype dbsize datablock maxsize mask_arg flags"
| "exec Setloop = vgm_setloop"

definition session :: "string \<Rightarrow> call list \<Rightarrow> vgm_state \<Rightarrow> fault + vgm_state" where
  "session fname calls = steps (vgm_open fname # map exec calls @ [vgm_close])"

text \<open>The bytes written so far: the buffer from its start up to \<open>data\<close>.\<close>

definition stream :: "vgm_state \<Rightarrow> u8 list" where
  "stream s =
     (case data s of
        Null \<Rightarrow> []
      | Ptr b c \<Rightarrow> (case heap s b of None \<Rightarrow> [] | Some blk \<Rightarrow> map (bytes blk) [0..<c]))"

section \<open>Observations on states\<close>

text \<open>
  The notions the properties are stated with. \<open>cursor\<close> is the offset of \<open>data\<close> in its
  block and \<open>capacity\<close> the value of \<open>buffer_size\<close>. A buffer is open when \<open>vgmdata\<close> is
  the start of a live block of \<open>buffer_size\<close> bytes and \<open>data\<close> points into that block.
\<close>

definition cursor :: "vgm_state \<Rightarrow> nat" where
  "cursor s = (case data s of Null \<Rightarrow> 0 | Ptr b c \<Rightarrow> c)"

definition capacity :: "vgm_state \<Rightarrow> nat" where
  "capacity s = unat (buffer_size s)"

definition open_buffer :: "vgm_state \<Rightarrow> bool" where
  "open_buffer s =
     (case data s of
        Null \<Rightarrow> False
      | Ptr b c \<Rightarrow>
          vgmdata s = Ptr b 0 \<and>
          (case heap s b of
             None \<Rightarrow> False
           | Some blk \<Rightarrow> bsize blk = unat (buffer_size s) \<and> c \<le> bsize blk))"

text \<open>
  An open stream in good standing: at least the low-water mark of 1024 bytes is free,
  and the capacity is one whose double still fits \<open>uint32_t\<close>.
\<close>

definition writable :: "vgm_state \<Rightarrow> bool" where
  "writable s \<longleftrightarrow> open_buffer s \<and> cursor s + 1024 \<le> capacity s \<and> capacity s < 2 ^ 31"

text \<open>
  A stream that \<open>vgm_close\<close> can finish without the buffer moving under it: the two
  track pointers still point at offsets 18 and 22 of the buffer, a file name is set,
  and the eight bytes \<open>vgm_close\<close> may append leave 1024 bytes free.
\<close>

definition closable :: "vgm_state \<Rightarrow> bool" where
  "closable s \<longleftrightarrow>
     open_buffer s \<and> 22 \<le> cursor s \<and> cursor s + 1032 \<le> capacity s \<and>
     (case vgmdata s of
        Null \<Rightarrow> False
      | Ptr b off \<Rightarrow> track_len_ptr s = Ptr b 18 \<and> track_start_ptr s = Ptr b 22) \<and>
     filename s \<noteq> None"

text \<open>What an observer sees of a result: a fault, or a reading of the state.\<close>

definition observe :: "(vgm_state \<Rightarrow> 'a) \<Rightarrow> fault + vgm_state \<Rightarrow> fault + 'a" where
  "observe f r = (case r of Inl e \<Rightarrow> Inl e | Inr s \<Rightarrow> Inr (f s))"

text \<open>
  The bytes of the file written last, its 4-byte track length field (offsets 18 to
  21) and the track payload behind it.
\<close>

definition last_file :: "vgm_state \<Rightarrow> u8 list" where
  "last_file s = (case rev (files s) of [] \<Rightarrow> [] | (name, bs) # older \<Rightarrow> bs)"

definition track_length_field :: "vgm_state \<Rightarrow> u8 list" where
  "track_length_field s = take 4 (drop 18 (last_file s))"

definition track_payload :: "vgm_state \<Rightarrow> u8 list" where
  "track_payload s = drop 22 (last_file s)"

text \<open>The state in which the pending delta-time has been written.\<close>

definition flushed :: "vgm_state \<Rightarrow> vgm_state" where
  "flushed s = s\<lparr>delayq := (if 10 \<le> delayq s then 0 else delayq s)\<rparr>"

text \<open>The bytes of \<open>write_be32\<close> and \<open>write_be16\<close>, and of the head of the file.\<close>

definition be32_bytes :: "u32 \<Rightarrow> u8 list" where
  "be32_bytes v = [ucast (drop_bit 24 v AND 0xFF), ucast (drop_bit 16 v AND 0xFF),
                   ucast (drop_bit 8 v AND 0xFF), ucast (drop_bit 0 v AND 0xFF)]"

definition be16_bytes :: "u16 \<Rightarrow> u8 list" where
  "be16_bytes v = [ucast (drop_bit 8 v AND 0xFF), ucast (drop_bit 0 v AND 0xFF)]"

definition smf_header :: "u8 list" where
  "smf_header = ascii ''MThd'' @ be32_bytes 6 @ be16_bytes 0 @ be16_bytes 1 @ be16_bytes 480"

definition smf_prologue :: "u8 list" where
  "smf_prologue = smf_header @ ascii ''MTrk'' @ be32_bytes 0"

definition mid_name :: "string \<Rightarrow> string" where
  "mid_name fname =
     (if length fname < 4 \<or> drop (length fname - 4) fname \<noteq> ''.mid''
      then fname @ ''.mid'' else fname)"

text \<open>
  The buffer after the length patch of \<open>vgm_close\<close>: the four bytes at offsets 18 to
  21 hold the big-endian number of bytes from offset 22 to the end.
\<close>

definition patch_length :: "u8 list \<Rightarrow> u8 list" where
  "patch_length st =
     (let track_length = (of_nat (length st - 22) :: u32)
      in st[18 := ucast (drop_bit 24 track_length AND 0xFF),
            19 := ucast (drop_bit 16 track_length AND 0xFF),
            20 := ucast (drop_bit 8 track_length AND 0xFF),
            21 := ucast (drop_bit 0 track_length AND 0xFF)])"

subsection \<open>The mapping table of the event encoder\<close>

text \<open>
  \<open>spec_payload\<close> is the table as the specification words it (section 4.4): the
  end-of-track row asks for \<open>reg == 0x2F\<close>. \<open>payload\<close> is the same table with that one
  row read as the source has it, on the low byte of \<open>reg\<close>. \<open>unsupported\<close> are the
  calls for which \<open>payload\<close> has no row.
\<close>

definition spec_payload :: "u8 \<Rightarrow> u8 \<Rightarrow> u16 \<Rightarrow> u16 \<Rightarrow> u8 list" where
  "spec_payload command port reg value =
     (let status = command AND 0xF0;
          channel = port AND 0x0F
      in if status = 0x90 \<or> status = 0x80 \<or> status = 0xB0
         then [status OR channel, ucast (reg AND 0x7F), ucast (value AND 0x7F)]
         else if status = 0xC0 then [status OR channel, ucast (value AND 0x7F)]
         else if status = 0xE0
         then [status OR channel, ucast ((value AND 0x3FFF) AND 0x7F),
               ucast (drop_bit 7 (value AND 0x3FFF) AND 0x7F)]
         else if command = 0xFF \<and> reg = 0x2F then [0xFF, 0x2F, 0x00]
         else [])"

definition payload :: "u8 \<Rightarrow> u8 \<Rightarrow> u16 \<Rightarrow> u16 \<Rightarrow> u8 list" where
  "payload command port reg value =
     (let status = command AND 0xF0;
          channel = port AND 0x0F
      in if status = 0x90 \<or> status = 0x80 \<or> status = 0xB0
         then [status OR channel, ucast (reg AND 0x7F), ucast (value AND 0x7F)]
         else if status = 0xC0 then [status OR channel, ucast (value AND 0x7F)]
         else if status = 0xE0
         then [status OR channel, ucast ((value AND 0x3FFF) AND 0x7F),
               ucast (drop_bit 7 (value AND 0x3FFF) AND 0x7F)]
         else if command = 0xFF \<and> reg AND 0xFF = 0x2F then [0xFF, 0x2F, 0x00]
         else [])"

definition unsupported :: "u8 \<Rightarrow> u16 \<Rightarrow> bool" where
  "unsupported command reg \<longleftrightarrow>
     command AND 0xF0 \<notin> {0x90, 0x80, 0xB0, 0xC0, 0xE0} \<and>
     \<not> (command = 0xFF \<and> reg AND 0xFF = 0x2F)"

text \<open>What \<open>vgm_write_tag\<close> appends after the delta-time.\<close>

definition tag_bytes :: "u8 list option \<Rightarrow> 32 word \<Rightarrow> u8 list \<Rightarrow> u8 list" where
  "tag_bytes gamename songid ts =
     [0xFF, 0x01] @ varlen_bytes (of_nat (length (tag_text gamename songid ts)))
       @ tag_text gamename songid ts"

subsection \<open>The decoder of variable-length quantities\<close>

text \<open>
  Modelled from the spec: the source has the encoder only. Section 4.2 of the
  specification describes the decoder used for round trips: it reads bytes until one
  without the continuation bit 0x80 and accumulates the 7-bit groups, most significant
  first. The result is the value and the bytes left over, or \<open>None\<close> when the input
  ends inside a quantity.
\<close>

fun vlq_decode_from :: "nat \<Rightarrow> u8 list \<Rightarrow> (nat \<times> u8 list) option" where
  "vlq_decode_from acc [] = None"
| "vlq_decode_from acc (b # bs) =
     (if b AND 0x80 = 0 then Some (acc * 128 + unat (b AND 0x7F), bs)
      else vlq_decode_from (acc * 128 + unat (b AND 0x7F)) bs)"

definition vlq_decode :: "u8 list \<Rightarrow> (nat \<times> u8 list) option" where
  "vlq_decode bs = vlq_decode_from 0 bs"

subsection \<open>Concrete runs\<close>

text \<open>
  An allocator that answers every call the same way, fresh memory that reads 0, and
  the state in which \<open>vgm_open("song")\<close> leaves a program that has just started.
\<close>

definition always :: "alloc_outcome \<Rightarrow> nat \<Rightarrow> alloc_outcome" where
  "always r n = r"

definition no_junk :: "nat \<Rightarrow> u8" where
  "no_junk i = 0"

definition song_open :: vgm_state where
  "song_open = projr (vgm_open ''song'' (power_on (always InPlace) no_junk))"

text \<open>The state after \<open>vgm_open("song")\<close> and one call of \<open>vgm_delay\<close>.\<close>

definition song_after :: "u32 \<Rightarrow> vgm_state" where
  "song_after delay = projr (vgm_delay delay song_open)"

text \<open>The state after \<open>vgm_open("song")\<close> and \<open>vgm_close()\<close>.\<close>

definition song_closed :: vgm_state where
  "song_closed = projr (vgm_close song_open)"

text \<open>
  The calls of the end-to-end scenario: a note on, and after \<open>vgm_delay(50)\<close> the note
  off.
\<close>

definition scenario :: "call list" where
  "scenario = [Write 0x90 0 60 100, Delay 50, Write 0x80 0 60 0]"

text \<open>The state in which the scenario ends, and the note-on event of the long runs.\<close>

definition scenario_end :: vgm_state where
  "scenario_end = projr (session ''song'' scenario (power_on (always InPlace) no_junk))"

definition note_on :: "vgm_state \<Rightarrow> fault + vgm_state" where
  "note_on = vgm_write 0x90 0 60 100"

subsection \<open>Notions of the proofs\<close>

text \<open>
  \<open>frame\<close>: the globals that appending bytes leaves alone. \<open>steady\<close>: the buffer has
  not been reallocated. \<open>room k\<close>: an open buffer into which \<open>k\<close> more bytes can be
  written without a fault, whatever the allocator answers. \<open>appends f xs\<close>: \<open>f\<close>
  appends exactly the bytes \<open>xs\<close> to the stream when it returns, returns when there is
  room, and leaves the buffer where it is when more than 1024 bytes stay free.
\<close>

definition frame :: "vgm_state \<Rightarrow> vgm_state \<Rightarrow> bool" where
  "frame s s' \<longleftrightarrow>
     delayq s' = delayq s \<and> filename s' = filename s \<and>
     track_len_ptr s' = track_len_ptr s \<and> track_start_ptr s' = track_start_ptr s \<and>
     alloc_oracle s' = alloc_oracle s \<and> junk s' = junk s \<and> files s' = files s"

definition steady :: "vgm_state \<Rightarrow> vgm_state \<Rightarrow> bool" where
  "steady s s' \<longleftrightarrow>
     vgmdata s' = vgmdata s \<and> buffer_size s' = buffer_size s \<and>
     alloc_calls s' = alloc_calls s \<and> next_block s' = next_block s"

definition room :: "nat \<Rightarrow> vgm_state \<Rightarrow> bool" where
  "room k s \<longleftrightarrow>
     open_buffer s \<and> 1024 \<le> capacity s \<and> cursor s + k \<le> capacity s \<and>
     (cursor s + k + 1024 \<le> capacity s \<or> capacity s < 2 ^ 31)"

definition appends :: "(vgm_state \<Rightarrow> fault + vgm_state) \<Rightarrow> u8 list \<Rightarrow> bool" where
  "appends f xs \<longleftrightarrow>
     (\<forall>s s'. open_buffer s \<longrightarrow> f s = Inr s' \<longrightarrow>
         open_buffer s' \<and> stream s' = stream s @ xs \<and> frame s s') \<and>
     (\<forall>s k. room (length xs + k) s \<longrightarrow> (\<exists>s'. f s = Inr s' \<and> room k s')) \<and>
     (\<forall>s. open_buffer s \<longrightarrow> cursor s + length xs + 1024 \<le> capacity s \<longrightarrow>
         (\<exists>s'. f s = Inr s' \<and> steady s s'))"

text \<open>
  \<open>headed fs\<close>: an open stream that begins with the 14 bytes of the header chunk, with
  \<open>fs\<close> the files written so far. \<open>keeps_head\<close>: a step that changes no byte below
  offset 18 of any block.
\<close>

definition headed :: "(string \<times> u8 list) list \<Rightarrow> vgm_state \<Rightarrow> bool" where
  "headed fs s \<longleftrightarrow>
     open_buffer s \<and> 22 \<le> cursor s \<and> take 14 (stream s) = smf_header \<and> files s = fs \<and>
     (case track_len_ptr s of Null \<Rightarrow> False | Ptr b0 off \<Rightarrow> off = 18)"

definition keeps_head :: "vgm_state \<Rightarrow> vgm_state \<Rightarrow> bool" where
  "keeps_head s s' \<longleftrightarrow>
     data s' = data s \<and> vgmdata s' = vgmdata s \<and> filename s' = filename s \<and>
     files s' = files s \<and> track_len_ptr s' = track_len_ptr s \<and>
     (\<forall>b blk. heap s b = Some blk \<longrightarrow>
        (\<exists>blk'. heap s' b = Some blk' \<and> (\<forall>j<18. bytes blk' j = bytes blk j)))"

text \<open>
  \<open>playing cap c\<close>: an open stream of capacity \<open>cap\<close> with the cursor at \<open>c\<close> and no
  delay pending.
\<close>

definition playing :: "nat \<Rightarrow> nat \<Rightarrow> vgm_state \<Rightarrow> bool" where
  "playing cap c s \<longleftrightarrow> open_buffer s \<and> capacity s = cap \<and> cursor s = c \<and> delayq s = 0"

subsection \<open>Notions of the further properties\<close>

text \<open>
  \<open>headroom\<close>: the condition that \<open>write_u8\<close> and \<open>write_bytes\<close> test after each write
  (lines 62 and 77), on an open stream: at least 1024 bytes are left between the cursor and
  the end of the buffer.
\<close>

definition headroom :: "vgm_state \<Rightarrow> bool" where
  "headroom s \<longleftrightarrow> open_buffer s \<and> cursor s + 1024 \<le> capacity s"

text \<open>
  \<open>length_field_matches\<close>: the four bytes at offset 18 of the last file written are the
  big-endian count of the bytes that follow them.
\<close>

definition length_field_matches :: "vgm_state \<Rightarrow> bool" where
  "length_field_matches s \<longleftrightarrow>
     track_length_field s = be32_bytes (of_nat (length (track_payload s)))"

text \<open>\<open>file_head\<close>: the first 14 bytes of the last file written.\<close>

definition file_head :: "vgm_state \<Rightarrow> u8 list" where
  "file_head s = take 14 (last_file s)"

section \<open>Properties of the helpers\<close>

lemma open_bufferE:
  assumes "open_buffer s"
  obtains b c blk where "data s = Ptr b c" "vgmdata s = Ptr b 0" "heap s b = Some blk"
    "bsize blk = unat (buffer_size s)" "c \<le> bsize blk"
  using assms by (auto simp: open_buffer_def split: ptr.splits option.splits)

lemma frame_refl [simp]: "frame s s"
  by (simp add: frame_def)

lemma frame_trans: "frame s t \<Longrightarrow> frame t u \<Longrightarrow> frame s u"
  by (simp add: frame_def)

lemma steady_refl [simp]: "steady s s"
  by (simp add: steady_def)

lemma steady_trans: "steady s t \<Longrightarrow> steady t u \<Longrightarrow> steady s u"
  by (simp add: steady_def)

lemma unat_double:
  fixes w :: u32
  assumes "unat w < 2 ^ 31"
  shows "unat (w * 2) = 2 * unat w"
proof -
  have "unat (w * 2) = (unat w * 2) mod 2 ^ 32"
    by (simp add: unat_word_ariths)
  also have "\<dots> = unat w * 2" using assms by simp
  finally show ?thesis by simp
qed

lemma low_water: "(uint (w :: u32) - int c < 1024) = (unat w < c + 1024)"
  unfolding uint_nat by linarith

lemma grow_steady:
  assumes "open_buffer s" and "cursor s + 1024 \<le> capacity s"
  shows "grow_if_needed s = Inr s"
proof -
  from assms(1) obtain b c blk where d: "data s = Ptr b c" "vgmdata s = Ptr b 0"
    by (rule open_bufferE)
  with assms(2) show ?thesis
    by (simp add: grow_if_needed_def ptr_diff_def cursor_def capacity_def low_water)
qed

lemma grow_cond:
  assumes ob: "open_buffer s" and g: "grow_if_needed s = Inr s'"
  shows "open_buffer s' \<and> stream s' = stream s \<and> cursor s' = cursor s \<and> frame s s'"
proof -
  from ob obtain b c blk where d: "data s = Ptr b c" "vgmdata s = Ptr b 0" "heap s b = Some blk"
    "bsize blk = unat (buffer_size s)" "c \<le> bsize blk" by (rule open_bufferE)
  show ?thesis
  proof (cases "int (unat (buffer_size s)) - int c < 1024")
    case False
    with g d have "s' = s" by (simp add: grow_if_needed_def ptr_diff_def)
    with ob show ?thesis by simp
  next
    case True
    show ?thesis
    proof (cases "alloc_oracle s (alloc_calls s)")
      case Fails
      with g d True have "s' = s\<lparr>alloc_calls := alloc_calls s + 1\<rparr>"
        by (simp add: grow_if_needed_def ptr_diff_def realloc_def)
      with d show ?thesis by (simp add: frame_def open_buffer_def stream_def cursor_def)
    next
      case InPlace
      with g d True show ?thesis
        by (auto simp: grow_if_needed_def ptr_diff_def realloc_def ptr_add_def Let_def resized_def
              frame_def open_buffer_def stream_def cursor_def split: if_splits)
    next
      case Relocates
      with g d True show ?thesis
        by (auto simp: grow_if_needed_def ptr_diff_def realloc_def ptr_add_def Let_def resized_def
              frame_def open_buffer_def stream_def cursor_def split: if_splits)
    qed
  qed
qed

lemma grow_room:
  assumes r: "room k s"
  shows "\<exists>s'. grow_if_needed s = Inr s' \<and> room k s'"
proof (cases "cursor s + 1024 \<le> capacity s")
  case True
  with r have "grow_if_needed s = Inr s" by (simp add: room_def grow_steady)
  with r show ?thesis by simp
next
  case False
  from r have ob: "open_buffer s" by (simp add: room_def)
  from ob obtain b c blk where d: "data s = Ptr b c" "vgmdata s = Ptr b 0" "heap s b = Some blk"
    "bsize blk = unat (buffer_size s)" "c \<le> bsize blk" by (rule open_bufferE)
  from False r have small: "unat (buffer_size s) < 2 ^ 31"
    by (auto simp: room_def capacity_def)
  then have dbl: "unat (buffer_size s * 2) = 2 * unat (buffer_size s)" by (rule unat_double)
  from False d have t: "int (unat (buffer_size s)) - int c < 1024"
    by (simp add: cursor_def capacity_def low_water)
  from r d have k: "c + k \<le> unat (buffer_size s)" "1024 \<le> unat (buffer_size s)"
    by (simp_all add: room_def cursor_def capacity_def)
  show ?thesis
  proof (cases "alloc_oracle s (alloc_calls s)")
    case Fails
    with d t have "grow_if_needed s = Inr (s\<lparr>alloc_calls := alloc_calls s + 1\<rparr>)"
      by (simp add: grow_if_needed_def ptr_diff_def realloc_def)
    moreover from r d have "room k (s\<lparr>alloc_calls := alloc_calls s + 1\<rparr>)"
      by (simp add: room_def open_buffer_def cursor_def capacity_def)
    ultimately show ?thesis by simp
  next
    case InPlace
    with d t dbl k show ?thesis
      by (simp add: grow_if_needed_def ptr_diff_def realloc_def ptr_add_def Let_def resized_def
            room_def open_buffer_def cursor_def capacity_def)
  next
    case Relocates
    with d t dbl k show ?thesis
      by (simp add: grow_if_needed_def ptr_diff_def realloc_def ptr_add_def Let_def resized_def
            room_def open_buffer_def cursor_def capacity_def)
  qed
qed

lemma write_u8_unfold:
  assumes "data s = Ptr b c" "heap s b = Some blk" "c < bsize blk"
  shows "write_u8 v s =
           grow_if_needed (s\<lparr>heap := (heap s)(b \<mapsto> blk\<lparr>bytes := (bytes blk)(c := v)\<rparr>),
                            data := Ptr b (Suc c)\<rparr>)"
  using assms by (simp add: write_u8_def store_u8_def ptr_add_def)

lemma write_u8_full:
  assumes "data s = Ptr b c" "heap s b = Some blk" "bsize blk \<le> c"
  shows "write_u8 v s = Inl OutOfBounds"
  using assms by (simp add: write_u8_def store_u8_def)

lemma write_u8_cond:
  assumes ob: "open_buffer s" and w: "write_u8 v s = Inr s'"
  shows "open_buffer s' \<and> stream s' = stream s @ [v] \<and> cursor s' = Suc (cursor s) \<and> frame s s'"
proof -
  from ob obtain b c blk where d: "data s = Ptr b c" "vgmdata s = Ptr b 0" "heap s b = Some blk"
    "bsize blk = unat (buffer_size s)" "c \<le> bsize blk" by (rule open_bufferE)
  have lt: "c < bsize blk"
  proof (rule ccontr)
    assume "\<not> c < bsize blk"
    with d have "write_u8 v s = Inl OutOfBounds" by (simp add: write_u8_full)
    with w show False by simp
  qed
  let ?t = "s\<lparr>heap := (heap s)(b \<mapsto> blk\<lparr>bytes := (bytes blk)(c := v)\<rparr>), data := Ptr b (Suc c)\<rparr>"
  from d lt w have g: "grow_if_needed ?t = Inr s'" by (simp add: write_u8_unfold)
  from d lt have obt: "open_buffer ?t" by (simp add: open_buffer_def)
  from d have st: "stream ?t = stream s @ [v]" "cursor ?t = Suc (cursor s)" "frame s ?t"
    by (simp_all add: stream_def cursor_def frame_def)
  from grow_cond [OF obt g] have g': "open_buffer s'" "stream s' = stream ?t" "cursor s' = cursor ?t"
    "frame ?t s'" by simp_all
  from st(3) g'(4) have "frame s s'" by (rule frame_trans)
  with g' st show ?thesis by simp
qed

lemma write_u8_room:
  assumes r: "room (Suc k) s"
  shows "\<exists>s'. write_u8 v s = Inr s' \<and> room k s'"
proof -
  from r have ob: "open_buffer s" by (simp add: room_def)
  from ob obtain b c blk where d: "data s = Ptr b c" "vgmdata s = Ptr b 0" "heap s b = Some blk"
    "bsize blk = unat (buffer_size s)" "c \<le> bsize blk" by (rule open_bufferE)
  from r d have lt: "c < bsize blk" by (simp add: room_def cursor_def capacity_def)
  let ?t = "s\<lparr>heap := (heap s)(b \<mapsto> blk\<lparr>bytes := (bytes blk)(c := v)\<rparr>), data := Ptr b (Suc c)\<rparr>"
  from r d have "room k ?t"
    by (simp add: room_def open_buffer_def cursor_def capacity_def)
  from grow_room [OF this] d lt show ?thesis by (simp add: write_u8_unfold)
qed

lemma write_u8_steady:
  assumes ob: "open_buffer s" and c: "cursor s + 1025 \<le> capacity s"
  shows "\<exists>s'. write_u8 v s = Inr s' \<and> steady s s'"
proof -
  from ob obtain b c blk where d: "data s = Ptr b c" "vgmdata s = Ptr b 0" "heap s b = Some blk"
    "bsize blk = unat (buffer_size s)" "c \<le> bsize blk" by (rule open_bufferE)
  from c d have lt: "c < bsize blk" by (simp add: cursor_def capacity_def)
  let ?t = "s\<lparr>heap := (heap s)(b \<mapsto> blk\<lparr>bytes := (bytes blk)(c := v)\<rparr>), data := Ptr b (Suc c)\<rparr>"
  from d lt have "open_buffer ?t" by (simp add: open_buffer_def)
  moreover from c d have "cursor ?t + 1024 \<le> capacity ?t" by (simp add: cursor_def capacity_def)
  ultimately have "grow_if_needed ?t = Inr ?t" by (rule grow_steady)
  with d lt show ?thesis by (simp add: write_u8_unfold steady_def)
qed

lemma length_stream: "open_buffer s \<Longrightarrow> length (stream s) = cursor s"
  by (auto simp: open_buffer_def stream_def cursor_def split: ptr.splits option.splits)

lemma open_buffer_data: "open_buffer s \<Longrightarrow> vgmdata s = Ptr b 0 \<Longrightarrow> data s = Ptr b (cursor s)"
  by (auto simp: open_buffer_def cursor_def split: ptr.splits option.splits)

lemma upt_split: "[0..<c + n] = [0..<c] @ map (\<lambda>i. i + c) [0..<n]"
proof -
  have "[0..<c + n] = [0..<c] @ [c..<c + n]" by (rule upt_add_eq_append) simp
  moreover have "map (\<lambda>i. i + c) [0..<n] = [c..<n + c]" by (rule map_add_upt)
  moreover have "n + c = c + n" by simp
  ultimately show ?thesis by (simp only:)
qed

lemma map_shift_nth: "map (\<lambda>i. src ! i) [0..<length src] = src"
  by (rule map_nth)

lemma memcpy_stream:
  "map (\<lambda>i. if c \<le> i \<and> i < c + length src then src ! (i - c) else f i) [0..<c + length src]
     = map f [0..<c] @ src"
proof -
  have a: "map (\<lambda>i. if c \<le> i \<and> i < c + length src then src ! (i - c) else f i) [0..<c]
        = map f [0..<c]" by simp
  have b: "map (\<lambda>i. if c \<le> i \<and> i < c + length src then src ! (i - c) else f i)
            (map (\<lambda>i. i + c) [0..<length src]) = map (\<lambda>i. src ! i) [0..<length src]"
    by (simp add: o_def)
  show ?thesis unfolding upt_split map_append a b map_shift_nth ..
qed

lemma write_bytes_unfold:
  assumes "data s = Ptr b c" "heap s b = Some blk" "c + length src \<le> bsize blk"
  shows "write_bytes src s =
           grow_if_needed (s\<lparr>heap := (heap s)(b \<mapsto> blk\<lparr>bytes :=
                (\<lambda>i. if c \<le> i \<and> i < c + length src then src ! (i - c) else bytes blk i)\<rparr>),
                            data := Ptr b (c + length src)\<rparr>)"
  using assms by (simp add: write_bytes_def memcpy_to_def ptr_add_def)

lemma write_bytes_full:
  assumes "data s = Ptr b c" "heap s b = Some blk" "bsize blk < c + length src"
  shows "write_bytes src s = Inl OutOfBounds"
  using assms by (simp add: write_bytes_def memcpy_to_def)

lemma appendsD1:
  "appends f xs \<Longrightarrow> open_buffer s \<Longrightarrow> f s = Inr s' \<Longrightarrow>
     open_buffer s' \<and> stream s' = stream s @ xs \<and> frame s s'"
  unfolding appends_def by blast

lemma appendsD2:
  "appends f xs \<Longrightarrow> room (length xs + k) s \<Longrightarrow> \<exists>s'. f s = Inr s' \<and> room k s'"
  unfolding appends_def by blast

lemma appendsD3:
  "appends f xs \<Longrightarrow> open_buffer s \<Longrightarrow> cursor s + length xs + 1024 \<le> capacity s \<Longrightarrow>
     \<exists>s'. f s = Inr s' \<and> steady s s'"
  unfolding appends_def by blast

lemma appends_write_u8: "appends (write_u8 v) [v]"
  unfolding appends_def
proof (intro conjI allI impI)
  fix s s' assume "open_buffer s" "write_u8 v s = Inr s'"
  from write_u8_cond [OF this]
  show "open_buffer s'" "stream s' = stream s @ [v]" "frame s s'" by simp_all
next
  fix s k assume "room (length [v] + k) s"
  then have "room (Suc k) s" by simp
  then show "\<exists>s'. write_u8 v s = Inr s' \<and> room k s'" by (rule write_u8_room)
next
  fix s assume "open_buffer s" "cursor s + length [v] + 1024 \<le> capacity s"
  then show "\<exists>s'. write_u8 v s = Inr s' \<and> steady s s'" by (simp add: write_u8_steady)
qed

lemma appends_write_bytes: "appends (write_bytes src) src"
  unfolding appends_def
proof (intro conjI allI impI)
  fix s s' assume ob: "open_buffer s" and w: "write_bytes src s = Inr s'"
  from ob obtain b c blk where d: "data s = Ptr b c" "vgmdata s = Ptr b 0" "heap s b = Some blk"
    "bsize blk = unat (buffer_size s)" "c \<le> bsize blk" by (rule open_bufferE)
  have le: "c + length src \<le> bsize blk"
  proof (rule ccontr)
    assume "\<not> c + length src \<le> bsize blk"
    with d have "write_bytes src s = Inl OutOfBounds" by (simp add: write_bytes_full)
    with w show False by simp
  qed
  let ?t = "s\<lparr>heap := (heap s)(b \<mapsto> blk\<lparr>bytes :=
                (\<lambda>i. if c \<le> i \<and> i < c + length src then src ! (i - c) else bytes blk i)\<rparr>),
              data := Ptr b (c + length src)\<rparr>"
  from d le w have g: "grow_if_needed ?t = Inr s'" by (simp add: write_bytes_unfold)
  from d le have obt: "open_buffer ?t" by (simp add: open_buffer_def)
  from d have st: "stream ?t = stream s @ src" "frame s ?t"
    by (simp_all add: stream_def frame_def memcpy_stream)
  from grow_cond [OF obt g] have g': "open_buffer s'" "stream s' = stream ?t" "frame ?t s'"
    by simp_all
  from g' st show "open_buffer s'" "stream s' = stream s @ src" by simp_all
  from st(2) g'(3) show "frame s s'" by (rule frame_trans)
next
  fix s k assume r: "room (length src + k) s"
  then have ob: "open_buffer s" by (simp add: room_def)
  from ob obtain b c blk where d: "data s = Ptr b c" "vgmdata s = Ptr b 0" "heap s b = Some blk"
    "bsize blk = unat (buffer_size s)" "c \<le> bsize blk" by (rule open_bufferE)
  from r d have le: "c + length src \<le> bsize blk" by (simp add: room_def cursor_def capacity_def)
  let ?t = "s\<lparr>heap := (heap s)(b \<mapsto> blk\<lparr>bytes :=
                (\<lambda>i. if c \<le> i \<and> i < c + length src then src ! (i - c) else bytes blk i)\<rparr>),
              data := Ptr b (c + length src)\<rparr>"
  from r d have "room k ?t"
    by (simp add: room_def open_buffer_def cursor_def capacity_def add.assoc)
  from grow_room [OF this] d le
  show "\<exists>s'. write_bytes src s = Inr s' \<and> room k s'" by (simp add: write_bytes_unfold)
next
  fix s assume ob: "open_buffer s" and c: "cursor s + length src + 1024 \<le> capacity s"
  from ob obtain b c blk where d: "data s = Ptr b c" "vgmdata s = Ptr b 0" "heap s b = Some blk"
    "bsize blk = unat (buffer_size s)" "c \<le> bsize blk" by (rule open_bufferE)
  from c d have le: "c + length src \<le> bsize blk" by (simp add: cursor_def capacity_def)
  let ?t = "s\<lparr>heap := (heap s)(b \<mapsto> blk\<lparr>bytes :=
                (\<lambda>i. if c \<le> i \<and> i < c + length src then src ! (i - c) else bytes blk i)\<rparr>),
              data := Ptr b (c + length src)\<rparr>"
  from d le have "open_buffer ?t" by (simp add: open_buffer_def)
  moreover from c d have "cursor ?t + 1024 \<le> capacity ?t" by (simp add: cursor_def capacity_def)
  ultimately have "grow_if_needed ?t = Inr ?t" by (rule grow_steady)
  with d le show "\<exists>s'. write_bytes src s = Inr s' \<and> steady s s'"
    by (simp add: write_bytes_unfold steady_def)
qed

lemma appends_steps_Nil: "appends (steps []) []"
proof -
  have "steps [] = (Inr :: vgm_state \<Rightarrow> fault + vgm_state)" by (rule ext) simp
  moreover have "appends Inr []"
    unfolding appends_def
  proof (intro conjI allI impI)
    fix s s' :: vgm_state assume "open_buffer s" "Inr s = (Inr s' :: fault + vgm_state)"
    then show "open_buffer s'" "stream s' = stream s @ []" "frame s s'" by simp_all
  next
    fix s :: vgm_state and k assume "room (length ([] :: u8 list) + k) s"
    then show "\<exists>s'. (Inr s :: fault + vgm_state) = Inr s' \<and> room k s'" by simp
  next
    fix s :: vgm_state
    show "\<exists>s'. (Inr s :: fault + vgm_state) = Inr s' \<and> steady s s'" by simp
  qed
  ultimately show ?thesis by simp
qed

lemma appends_steps_Cons:
  assumes f: "appends f xs" and g: "appends (steps fs) ys"
  shows "appends (steps (f # fs)) (xs @ ys)"
  unfolding appends_def
proof (intro conjI allI impI)
  fix s s' assume ob: "open_buffer s" and w: "steps (f # fs) s = Inr s'"
  then obtain t where t: "f s = Inr t" "steps fs t = Inr s'"
    by (auto split: sum.splits)
  from appendsD1 [OF f ob t(1)] have 1: "open_buffer t" "stream t = stream s @ xs" "frame s t"
    by simp_all
  from appendsD1 [OF g 1(1) t(2)] have 2: "open_buffer s'" "stream s' = stream t @ ys" "frame t s'"
    by simp_all
  from 1 2 show "open_buffer s'" "stream s' = stream s @ xs @ ys" by simp_all
  from 1(3) 2(3) show "frame s s'" by (rule frame_trans)
next
  fix s k assume "room (length (xs @ ys) + k) s"
  then have "room (length xs + (length ys + k)) s" by (simp add: add.assoc)
  from appendsD2 [OF f this] obtain t where t: "f s = Inr t" "room (length ys + k) t" by blast
  from appendsD2 [OF g t(2)] t(1)
  show "\<exists>s'. steps (f # fs) s = Inr s' \<and> room k s'" by simp
next
  fix s assume ob: "open_buffer s" and c: "cursor s + length (xs @ ys) + 1024 \<le> capacity s"
  then have "cursor s + length xs + 1024 \<le> capacity s" by simp
  from appendsD3 [OF f ob this] obtain t where t: "f s = Inr t" "steady s t" by blast
  from appendsD1 [OF f ob t(1)] have 1: "open_buffer t" "stream t = stream s @ xs" by simp_all
  from 1 ob have "cursor t = cursor s + length xs"
    using length_stream [of t] length_stream [of s] by simp
  with c t(2) have "cursor t + length ys + 1024 \<le> capacity t"
    by (simp add: steady_def capacity_def)
  from appendsD3 [OF g 1(1) this] obtain s' where s': "steps fs t = Inr s'" "steady t s'" by blast
  from t(2) s'(2) have "steady s s'" by (rule steady_trans)
  with t s' show "\<exists>s'. steps (f # fs) s = Inr s' \<and> steady s s'" by simp
qed

lemma appends_write_all: "appends (steps (map write_u8 xs)) xs"
proof (induction xs)
  case Nil
  have "steps [] = (Inr :: vgm_state \<Rightarrow> fault + vgm_state)" by (rule ext) simp
  with appends_steps_Nil show ?case by simp
next
  case (Cons x xs)
  have "appends (steps (write_u8 x # map write_u8 xs)) ([x] @ xs)"
    by (rule appends_steps_Cons [OF appends_write_u8 Cons.IH])
  then show ?case by (simp del: steps.simps)
qed

lemma steps_append:
  "steps (fs @ gs) s = (case steps fs s of Inl e \<Rightarrow> Inl e | Inr t \<Rightarrow> steps gs t)"
proof (induction fs arbitrary: s)
  case Nil
  show ?case by simp
next
  case (Cons f fs)
  show ?case by (cases "f s") (simp_all add: Cons.IH)
qed

lemma steps_single: "steps [f] s = f s"
  by (cases "f s") simp_all

lemma low7: "(v :: 'a::len word) AND 0x7F = take_bit 7 v"
  by (simp add: take_bit_eq_mask mask_eq_exp_minus_1)

lemma group_unat: "unat (ucast (v AND 0x7F :: u32) :: u8) = unat v mod 128"
proof -
  have "unat (ucast (take_bit 7 v :: u32) :: u8) = unat (take_bit 7 v)"
    by (simp add: unsigned_ucast_eq unsigned_take_bit_eq min_def take_bit_take_bit)
  then show ?thesis by (simp add: low7 unsigned_take_bit_eq take_bit_eq_mod unat_mod)
qed

lemma cont_byte: "(ucast (0x80 OR (v AND 0x7F) :: u32) :: u8) = 0x80 OR ucast (v AND 0x7F)"
  by (simp add: unsigned_or_eq)

lemma group_low: "(ucast (v AND 0x7F :: u32) :: u8) AND 0x80 = 0"
proof -
  have "\<not> bit (ucast (take_bit 7 v :: u32) :: u8) 7" by (simp add: bit_simps)
  then have "(ucast (take_bit 7 v :: u32) :: u8) AND 2 ^ 7 = 0"
    by (rule and_exp_eq_0_iff_not_bit [THEN iffD2])
  then show ?thesis by (simp add: low7)
qed

lemma group_mask: "(ucast (v AND 0x7F :: u32) :: u8) AND 0x7F = ucast (v AND 0x7F)"
proof -
  have "take_bit 7 (ucast (take_bit 7 v :: u32) :: u8) = ucast (take_bit 7 v)"
    by (rule bit_word_eqI) (auto simp: bit_simps)
  then show ?thesis by (simp add: low7)
qed

lemma cont_high: "(0x80 OR (ucast (v AND 0x7F :: u32) :: u8)) AND 0x80 \<noteq> 0"
proof -
  have "bit ((push_bit 7 1 OR (ucast (take_bit 7 v :: u32) :: u8)) AND push_bit 7 1) 7"
    by (simp add: bit_simps)
  then have "(push_bit 7 1 OR (ucast (take_bit 7 v :: u32) :: u8)) AND push_bit 7 1 \<noteq> 0"
    by (metis bit_0_eq bot_apply bot_bool_def)
  then show ?thesis by (simp add: low7)
qed

lemma cont_mask: "(0x80 OR (ucast (v AND 0x7F :: u32) :: u8)) AND 0x7F = ucast (v AND 0x7F)"
proof -
  have "take_bit 7 (push_bit 7 1 OR (ucast (take_bit 7 v :: u32) :: u8)) = ucast (take_bit 7 v)"
    by (rule bit_word_eqI) (auto simp: bit_simps)
  then show ?thesis by (simp add: low7)
qed

lemma loop_grows: "length buffer \<le> length (varlen_loop v buffer)"
proof (induction v buffer rule: varlen_loop.induct)
  case (1 v buffer)
  show ?case
  proof (cases "v = 0")
    case True
    then show ?thesis by (simp add: varlen_loop.simps)
  next
    case False
    from "1.IH" [OF False] have "length buffer \<le> length (varlen_loop (drop_bit 7 v)
        (buffer @ [ucast (0x80 OR (v AND 0x7F))]))" by simp
    with False show ?thesis by (subst varlen_loop.simps) simp
  qed
qed

lemma loop_len: "unat v < 2 ^ (7 * k) \<Longrightarrow> length (varlen_loop v buffer) \<le> length buffer + k"
proof (induction k arbitrary: v buffer)
  case 0
  then have "v = 0" by (simp add: unat_eq_0)
  then show ?case by (simp add: varlen_loop.simps)
next
  case (Suc k)
  show ?case
  proof (cases "v = 0")
    case True
    then show ?thesis by (simp add: varlen_loop.simps)
  next
    case False
    have "(2::nat) ^ (7 * Suc k) = 2 ^ (7 * k) * 128" by (simp add: power_add)
    with Suc.prems have "unat v < 2 ^ (7 * k) * 128" by simp
    then have "unat v div 128 < 2 ^ (7 * k)" by (rule less_mult_imp_div_less)
    then have "unat (drop_bit 7 v) < 2 ^ (7 * k)" by (simp add: drop_bit_eq_div unat_div)
    from Suc.IH [OF this, of "buffer @ [ucast (0x80 OR (v AND 0x7F))]"]
    have "length (varlen_loop (drop_bit 7 v) (buffer @ [ucast (0x80 OR (v AND 0x7F))]))
            \<le> length buffer + Suc k" by simp
    moreover from False have "varlen_loop v buffer =
        varlen_loop (drop_bit 7 v) (buffer @ [ucast (0x80 OR (v AND 0x7F))])"
      by (subst varlen_loop.simps) simp
    ultimately show ?thesis by simp
  qed
qed

lemma varlen_bytes_length: "length (varlen_bytes v) \<le> 5"
proof -
  have "unat v < 2 ^ 32" using unsigned_less [of v] by simp
  then have "unat v div 128 < 2 ^ (7 * 4)" by simp
  then have "unat (drop_bit 7 v) < 2 ^ (7 * 4)" by (simp add: drop_bit_eq_div unat_div)
  from loop_len [OF this, of "[ucast (v AND 0x7F)]"] show ?thesis by (simp add: varlen_bytes_def)
qed

lemma varlen_bytes_nonempty: "varlen_bytes v \<noteq> []"
  using loop_grows [of "[ucast (v AND 0x7F)]" "drop_bit 7 v"] by (auto simp: varlen_bytes_def)

lemma decode_cont:
  "b AND 0x80 \<noteq> 0 \<Longrightarrow>
     vlq_decode_from acc (b # bs) = vlq_decode_from (acc * 128 + unat (b AND 0x7F)) bs"
  by simp

lemma decode_last:
  "b AND 0x80 = 0 \<Longrightarrow> vlq_decode_from acc (b # bs) = Some (acc * 128 + unat (b AND 0x7F), bs)"
  by simp

lemma split7: "unat (drop_bit 7 v) * 128 + unat v mod 128 = unat (v :: u32)"
  by (simp add: drop_bit_eq_div unat_div)

lemma decode_loop:
  "vlq_decode_from acc (rev (varlen_loop v buffer) @ rest) =
     vlq_decode_from (acc * 128 ^ (length (varlen_loop v buffer) - length buffer) + unat v)
        (rev buffer @ rest)"
proof (induction v buffer arbitrary: acc rule: varlen_loop.induct)
  case (1 v buffer)
  show ?case
  proof (cases "v = 0")
    case True
    then show ?thesis by (simp add: varlen_loop.simps)
  next
    case False
    define c :: u8 where "c = 0x80 OR ucast (v AND 0x7F)"
    define m where "m = length (varlen_loop (drop_bit 7 v) (buffer @ [c])) - length (buffer @ [c])"
    have c1: "c AND 0x80 \<noteq> 0" unfolding c_def by (rule cont_high)
    have c2: "unat (c AND 0x7F) = unat v mod 128" unfolding c_def cont_mask by (rule group_unat)
    have cb: "ucast (0x80 OR (v AND 0x7F)) = c" unfolding c_def by (rule cont_byte)
    have len: "length (buffer @ [c]) \<le> length (varlen_loop (drop_bit 7 v) (buffer @ [c]))"
      by (rule loop_grows)
    have step: "varlen_loop v buffer = varlen_loop (drop_bit 7 v) (buffer @ [c])"
      using False cb by (subst varlen_loop.simps) simp
    from len have e: "length (varlen_loop (drop_bit 7 v) (buffer @ [c])) - length buffer = Suc m"
      unfolding m_def by simp
    have ih: "vlq_decode_from acc (rev (varlen_loop (drop_bit 7 v) (buffer @ [c])) @ rest) =
        vlq_decode_from (acc * 128 ^ m + unat (drop_bit 7 v)) (rev (buffer @ [c]) @ rest)"
      using "1.IH" [OF False, of acc] unfolding cb m_def .
    have "vlq_decode_from (acc * 128 ^ m + unat (drop_bit 7 v)) (rev (buffer @ [c]) @ rest)
        = vlq_decode_from (acc * 128 ^ m + unat (drop_bit 7 v)) (c # (rev buffer @ rest))" by simp
    also have "\<dots> = vlq_decode_from ((acc * 128 ^ m + unat (drop_bit 7 v)) * 128 + unat (c AND 0x7F))
        (rev buffer @ rest)" using c1 by (rule decode_cont)
    also have "(acc * 128 ^ m + unat (drop_bit 7 v)) * 128 + unat (c AND 0x7F)
        = acc * 128 ^ Suc m + unat v"
      unfolding c2 using split7 [of v] by (simp add: algebra_simps)
    finally show ?thesis unfolding step ih e .
  qed
qed

lemma vlq_roundtrip: "vlq_decode (varlen_bytes v @ rest) = Some (unat v, rest)"
proof -
  define g :: u8 where "g = ucast (v AND 0x7F)"
  have g1: "g AND 0x80 = 0" unfolding g_def by (rule group_low)
  have g2: "unat (g AND 0x7F) = unat v mod 128" unfolding g_def group_mask by (rule group_unat)
  have "vlq_decode (varlen_bytes v @ rest)
      = vlq_decode_from 0 (rev (varlen_loop (drop_bit 7 v) [g]) @ rest)"
    by (simp add: vlq_decode_def varlen_bytes_def g_def)
  also have "\<dots> = vlq_decode_from (unat (drop_bit 7 v)) (g # rest)"
    unfolding decode_loop by simp
  also have "\<dots> = Some (unat (drop_bit 7 v) * 128 + unat (g AND 0x7F), rest)"
    using g1 by (rule decode_last)
  also have "unat (drop_bit 7 v) * 128 + unat (g AND 0x7F) = unat v"
    unfolding g2 by (rule split7)
  finally show ?thesis .
qed

declare steps.simps [simp del]

lemma room_mono: "room k s \<Longrightarrow> j \<le> k \<Longrightarrow> room j s"
  by (auto simp: room_def)

lemma writable_room: "writable s \<Longrightarrow> room 1024 s"
  by (simp add: writable_def room_def)

lemma steps_Cons_fun: "steps (fs @ gs) = steps (steps fs # gs)"
  by (rule ext) (simp add: steps_append steps.simps)

lemma appends_append:
  assumes "appends (steps fs) xs" and "appends (steps gs) ys"
  shows "appends (steps (fs @ gs)) (xs @ ys)"
  unfolding steps_Cons_fun using assms by (rule appends_steps_Cons)

lemma appends_single: "appends f xs \<Longrightarrow> appends (steps [f]) xs"
  using appends_steps_Cons [OF _ appends_steps_Nil, of f xs] by simp

lemma appends_run:
  assumes a: "appends f xs" and r: "room n s" and l: "length xs \<le> n"
  shows "\<exists>s'. f s = Inr s' \<and> open_buffer s' \<and> stream s' = stream s @ xs \<and> frame s s' \<and>
           room (n - length xs) s'"
proof -
  from r l have "room (length xs + (n - length xs)) s" by simp
  from appendsD2 [OF a this] obtain s' where s': "f s = Inr s'" "room (n - length xs) s'" by blast
  from r have "open_buffer s" by (simp add: room_def)
  from appendsD1 [OF a this s'(1)] s' show ?thesis by simp
qed

lemma appends_run_steady:
  assumes a: "appends f xs" and ob: "open_buffer s"
    and c: "cursor s + length xs + 1024 \<le> capacity s"
  shows "\<exists>s'. f s = Inr s' \<and> open_buffer s' \<and> stream s' = stream s @ xs \<and> frame s s' \<and>
           steady s s'"
proof -
  from appendsD3 [OF a ob c] obtain s' where s': "f s = Inr s'" "steady s s'" by blast
  from appendsD1 [OF a ob s'(1)] s' show ?thesis by simp
qed

lemma write_varlen_appends: "appends (write_varlen v) (varlen_bytes v)"
  unfolding write_varlen_def by (rule appends_write_all)

lemma write_be32_eq: "write_be32 v = steps (map write_u8 (be32_bytes v))"
  by (simp add: write_be32_def be32_bytes_def)

lemma write_be16_eq: "write_be16 v = steps (map write_u8 (be16_bytes v))"
  by (simp add: write_be16_def be16_bytes_def)

lemma write_be32_appends: "appends (write_be32 v) (be32_bytes v)"
  unfolding write_be32_eq by (rule appends_write_all)

lemma write_be16_appends: "appends (write_be16 v) (be16_bytes v)"
  unfolding write_be16_eq by (rule appends_write_all)

lemma small_div10:
  fixes w :: u32
  assumes "\<not> 10 \<le> w"
  shows "w div 10 = 0"
proof -
  from assms have "unat w < 10" by (simp add: word_le_nat_alt)
  moreover have "unat (w div 10) = unat w div 10" by (simp add: unat_div)
  ultimately have "unat (w div 10) = 0" by simp
  then show ?thesis by (simp add: unat_eq_0)
qed

lemma flushed_idle: "\<not> 10 \<le> delayq s \<Longrightarrow> flushed s = s"
  by (simp add: flushed_def)

lemma pending_delta: "write_pending_delta s = write_varlen (delayq s div 10) (flushed s)"
proof (cases "10 \<le> delayq s")
  case True
  then show ?thesis
    by (simp add: write_pending_delta_def flush_delay_get_ticks_def flushed_def)
next
  case False
  then show ?thesis
    by (simp add: write_pending_delta_def small_div10 flushed_idle)
qed

lemma flushed_simps [simp]:
  "open_buffer (flushed s) = open_buffer s" "stream (flushed s) = stream s"
  "cursor (flushed s) = cursor s" "capacity (flushed s) = capacity s"
  "room k (flushed s) = room k s" "writable (flushed s) = writable s"
  "vgmdata (flushed s) = vgmdata s" "data (flushed s) = data s"
  "filename (flushed s) = filename s" "files (flushed s) = files s"
  "track_len_ptr (flushed s) = track_len_ptr s" "track_start_ptr (flushed s) = track_start_ptr s"
  "buffer_size (flushed s) = buffer_size s" "heap (flushed s) = heap s"
  "alloc_oracle (flushed s) = alloc_oracle s" "alloc_calls (flushed s) = alloc_calls s"
  "next_block (flushed s) = next_block s" "junk (flushed s) = junk s"
  "delayq (flushed s) = (if 10 \<le> delayq s then 0 else delayq s)"
  by (simp_all add: flushed_def open_buffer_def stream_def cursor_def capacity_def room_def
        writable_def cong: ptr.case_cong option.case_cong)

lemma meta_type_eq: "((ucast (reg AND 0xFF :: u16) :: u8) = 0x2F) = (reg AND 0xFF = 0x2F)"
proof -
  have m: "reg AND 0xFF = take_bit 8 reg" by (simp add: take_bit_eq_mask mask_eq_exp_minus_1)
  have u: "unat (ucast (take_bit 8 reg :: u16) :: u8) = unat (take_bit 8 reg)"
    by (simp add: unsigned_ucast_eq unsigned_take_bit_eq min_def take_bit_take_bit)
  have "((ucast (take_bit 8 reg) :: u8) = 0x2F)
      = (unat (ucast (take_bit 8 reg) :: u8) = unat (0x2F :: u8))"
    by (simp only: word_unat_eq_iff)
  also have "\<dots> = (unat (take_bit 8 reg) = unat (0x2F :: u16))" unfolding u by simp
  also have "\<dots> = (take_bit 8 reg = 0x2F)" by (simp only: word_unat_eq_iff)
  finally show ?thesis unfolding m .
qed

lemma vgm_write_payload:
  "vgm_write command port reg value s =
     (case write_pending_delta s of
        Inl e \<Rightarrow> Inl e
      | Inr s1 \<Rightarrow> steps (map write_u8 (payload command port reg value)) s1)"
  by (cases "write_pending_delta s")
     (simp_all add: vgm_write_def payload_def Let_def steps.simps(1) meta_type_eq)

lemma vgm_write_steps:
  "vgm_write command port reg value s =
     steps (map write_u8 (varlen_bytes (delayq s div 10) @ payload command port reg value))
       (flushed s)"
  by (simp add: vgm_write_payload pending_delta write_varlen_def steps_append)

lemma vgm_write_tag_steps:
  "vgm_write_tag gamename songid ts s =
     steps (map write_u8 (varlen_bytes (delayq s div 10) @ [0xFF, 0x01]
                @ varlen_bytes (of_nat (length (tag_text gamename songid ts))))
            @ [write_bytes (tag_text gamename songid ts)])
       (flushed s)"
  by (simp add: vgm_write_tag_def Let_def pending_delta write_varlen_def steps_append steps.simps
        split: sum.splits)

lemma vgm_write_appends:
  "appends (steps (map write_u8 (varlen_bytes d @ payload command port reg value)))
     (varlen_bytes d @ payload command port reg value)"
  by (rule appends_write_all)

lemma tag_appends:
  "appends (steps (map write_u8 (varlen_bytes d @ [0xFF, 0x01] @ varlen_bytes n) @ [write_bytes buf]))
     ((varlen_bytes d @ [0xFF, 0x01] @ varlen_bytes n) @ buf)"
  by (rule appends_append [OF appends_write_all appends_single [OF appends_write_bytes]])

lemma payload_length: "length (payload command port reg value) \<le> 3"
  by (simp add: payload_def Let_def)

lemma tag_text_length: "length (tag_text gamename songid ts) \<le> 511"
  by (simp add: tag_text_def Let_def)

lemma track_ptr_simps [simp]:
  "open_buffer (s\<lparr>track_len_ptr := p\<rparr>) = open_buffer s"
  "stream (s\<lparr>track_len_ptr := p\<rparr>) = stream s"
  "cursor (s\<lparr>track_len_ptr := p\<rparr>) = cursor s"
  "capacity (s\<lparr>track_len_ptr := p\<rparr>) = capacity s"
  "open_buffer (s\<lparr>track_start_ptr := p\<rparr>) = open_buffer s"
  "stream (s\<lparr>track_start_ptr := p\<rparr>) = stream s"
  "cursor (s\<lparr>track_start_ptr := p\<rparr>) = cursor s"
  "capacity (s\<lparr>track_start_ptr := p\<rparr>) = capacity s"
  by (simp_all add: open_buffer_def stream_def cursor_def capacity_def
        cong: ptr.case_cong option.case_cong)

lemma steps_Inr: "f s = Inr t \<Longrightarrow> steps (f # fs) s = steps fs t"
  by (simp add: steps.simps)

lemma steps_Inl: "f s = Inl e \<Longrightarrow> steps (f # fs) s = Inl e"
  by (simp add: steps.simps)

lemma steps_assign: "steps ((\<lambda>t. Inr (g t)) # fs) s = steps fs (g s)"
  by (simp add: steps.simps)

lemma open_head_appends:
  "appends (steps [write_bytes (ascii ''MThd''), write_be32 6, write_be16 0, write_be16 1,
                   write_be16 480, write_bytes (ascii ''MTrk'')])
     (smf_header @ ascii ''MTrk'')"
proof -
  note c = appends_steps_Cons
  have "appends (steps [write_bytes (ascii ''MThd''), write_be32 6, write_be16 0, write_be16 1,
                   write_be16 480, write_bytes (ascii ''MTrk'')])
     (ascii ''MThd'' @ be32_bytes 6 @ be16_bytes 0 @ be16_bytes 1 @ be16_bytes 480
        @ ascii ''MTrk'' @ [])"
    by (intro c appends_write_bytes write_be32_appends write_be16_appends appends_steps_Nil)
  then show ?thesis by (simp add: smf_header_def)
qed

lemma length_ascii [simp]: "length (ascii cs) = length cs"
  by (simp add: ascii_def)

lemma prologue_lengths [simp]: "length smf_header = 14" "length smf_prologue = 22"
  by (simp_all add: smf_prologue_def smf_header_def be32_bytes_def be16_bytes_def)

lemma vgm_open_ok:
  assumes m1: "alloc_oracle s (alloc_calls s) \<noteq> Fails"
    and m2: "alloc_oracle s (Suc (alloc_calls s)) \<noteq> Fails"
  shows "\<exists>s'. vgm_open fname s = Inr s' \<and> open_buffer s' \<and> stream s' = smf_prologue \<and>
           buffer_size s' = 50000000 \<and> vgmdata s' = Ptr (next_block s) 0 \<and>
           track_len_ptr s' = Ptr (next_block s) 18 \<and>
           track_start_ptr s' = Ptr (next_block s) 22 \<and> delayq s' = 0 \<and>
           filename s' = Some (mid_name fname) \<and> files s' = files s \<and>
           alloc_oracle s' = alloc_oracle s \<and> junk s' = junk s \<and>
           alloc_calls s' = alloc_calls s + 2 \<and> next_block s' = Suc (next_block s)"
proof -
  define nb where "nb = next_block s"
  define s5 where "s5 = s\<lparr>filename := Some (mid_name fname), delayq := 0,
      alloc_calls := Suc (Suc (alloc_calls s)), next_block := Suc nb,
      vgmdata := Ptr nb 0, data := Ptr nb 0, buffer_size := 50000000,
      heap := (heap s)(nb \<mapsto> \<lparr>bsize = 50000000, bytes = (\<lambda>i. if i < 50000000 then 0 else junk s i)\<rparr>)\<rparr>"
  define A where "A = [write_bytes (ascii ''MThd''), write_be32 6, write_be16 0, write_be16 1,
                   write_be16 480, write_bytes (ascii ''MTrk'')]"
  define B where "B = [\<lambda>t. Inr (t\<lparr>track_len_ptr := data t\<rparr>), write_be32 0,
                   \<lambda>t. Inr (t\<lparr>track_start_ptr := data t\<rparr>)]"
  have e: "vgm_open fname s = steps (A @ B) s5"
    using m1 m2
    apply (cases "alloc_oracle s (Suc (alloc_calls s))")
      apply (simp_all add: vgm_open_def malloc_chars_def malloc_def Let_def MIDI_BUFFER_def
          mid_name_def A_def B_def steps_assign
          steps.simps(2) [of "\<lambda>t. memset_zero (vgmdata t) (unat (buffer_size t)) t"])
     apply (simp_all add: memset_zero_def s5_def nb_def mid_name_def cong: if_cong)
    done
  have ob5: "open_buffer s5" and st5: "stream s5 = []" and cap5: "capacity s5 = 50000000"
    and cur5: "cursor s5 = 0" and v5: "vgmdata s5 = Ptr nb 0"
    by (simp_all add: s5_def open_buffer_def stream_def capacity_def cursor_def)
  have "appends (steps A) (smf_header @ ascii ''MTrk'')" unfolding A_def by (rule open_head_appends)
  from appends_run_steady [OF this ob5] cur5 cap5
  obtain s6 where s6: "steps A s5 = Inr s6" "open_buffer s6"
      "stream s6 = stream s5 @ smf_header @ ascii ''MTrk''" "frame s5 s6" "steady s5 s6"
    by auto
  from s6(5) v5 have v6: "vgmdata s6 = Ptr nb 0" by (simp add: steady_def)
  from s6(2,3) st5 have "cursor s6 = 18" using length_stream [of s6] by simp
  with open_buffer_data [OF s6(2) v6] have d6: "data s6 = Ptr nb 18" by simp
  define s7 where "s7 = s6\<lparr>track_len_ptr := Ptr nb 18\<rparr>"
  have ob7: "open_buffer s7" and st7: "stream s7 = smf_header @ ascii ''MTrk''"
    and cur7: "cursor s7 = 18" and cap7: "capacity s7 = 50000000" and v7: "vgmdata s7 = Ptr nb 0"
    using s6 st5 cap5 v6 \<open>cursor s6 = 18\<close> by (simp_all add: s7_def steady_def capacity_def)
  from appends_run_steady [OF write_be32_appends ob7, of 0] cur7 cap7
  obtain s8 where s8: "write_be32 0 s7 = Inr s8" "open_buffer s8"
      "stream s8 = stream s7 @ be32_bytes 0" "frame s7 s8" "steady s7 s8"
    by (auto simp: be32_bytes_def)
  from s8(5) v7 have v8: "vgmdata s8 = Ptr nb 0" by (simp add: steady_def)
  from s8(3) st7 have st8: "stream s8 = smf_prologue" by (simp add: smf_prologue_def)
  with s8(2) have "cursor s8 = 22" using length_stream [of s8] by simp
  with open_buffer_data [OF s8(2) v8] have d8: "data s8 = Ptr nb 22" by simp
  define s9 where "s9 = s8\<lparr>track_start_ptr := Ptr nb 22\<rparr>"
  have "steps B s6 = Inr s9"
    unfolding B_def using d6 s8(1) d8
    by (simp add: steps.simps s7_def s9_def)
  with s6(1) have r: "vgm_open fname s = Inr s9" unfolding e by (simp add: steps_append)
  have f59: "delayq s8 = delayq s5" "filename s8 = filename s5" "files s8 = files s5"
    "alloc_oracle s8 = alloc_oracle s5" "junk s8 = junk s5" "track_len_ptr s8 = Ptr nb 18"
    "buffer_size s8 = buffer_size s5" "alloc_calls s8 = alloc_calls s5"
    "next_block s8 = next_block s5"
    using s6(4,5) s8(4,5) by (simp_all add: frame_def steady_def s7_def)
  have "open_buffer s9" "stream s9 = smf_prologue" "buffer_size s9 = 50000000"
    "vgmdata s9 = Ptr (next_block s) 0" "track_len_ptr s9 = Ptr (next_block s) 18"
    "track_start_ptr s9 = Ptr (next_block s) 22" "delayq s9 = 0"
    "filename s9 = Some (mid_name fname)" "files s9 = files s"
    "alloc_oracle s9 = alloc_oracle s" "junk s9 = junk s"
    "alloc_calls s9 = alloc_calls s + 2" "next_block s9 = Suc (next_block s)"
    using s8(2) st8 v8 f59
    by (simp_all add: s9_def s5_def nb_def)
  with r show ?thesis by blast
qed

lemma map_fun_upd_upt: "i < n \<Longrightarrow> map (f(i := v)) [0..<n] = (map f [0..<n])[i := v]"
  by (rule nth_equalityI) (simp_all add: nth_list_update)

lemma vgm_close_steps:
  "vgm_close s =
     steps (map write_u8 (varlen_bytes (delayq s div 10) @ [0xFF, 0x2F, 0x00])
            @ [\<lambda>s. if track_len_ptr s \<noteq> Null \<and> track_start_ptr s \<noteq> Null
             then (case ptr_diff (data s) (track_start_ptr s) of
                     Inl e \<Rightarrow> Inl e
                   | Inr d \<Rightarrow>
                       (let track_length = (word_of_int d :: u32)
                        in steps
                             [store_u8 (track_len_ptr s) 0 (ucast (drop_bit 24 track_length AND 0xFF)),
                              store_u8 (track_len_ptr s) 1 (ucast (drop_bit 16 track_length AND 0xFF)),
                              store_u8 (track_len_ptr s) 2 (ucast (drop_bit 8 track_length AND 0xFF)),
                              store_u8 (track_len_ptr s) 3 (ucast (drop_bit 0 track_length AND 0xFF))]
                             s))
             else Inr s,
        \<lambda>s. case ptr_diff (data s) (vgmdata s) of
               Inl e \<Rightarrow> Inl e
             | Inr total_size \<Rightarrow> write_file (filename s) (vgmdata s) total_size s,
        \<lambda>s. free (vgmdata s) s,
        \<lambda>s. Inr (s\<lparr>vgmdata := Null, data := Null, filename := None\<rparr>)])
       (flushed s)"
proof -
  have "steps (write_pending_delta # fs) s
      = steps (map write_u8 (varlen_bytes (delayq s div 10)) @ fs) (flushed s)" for fs
    by (simp add: steps.simps(2) [of write_pending_delta] pending_delta write_varlen_def steps_append)
  then show ?thesis by (simp add: vgm_close_def)
qed

lemma vgm_close_ok:
  assumes ob: "open_buffer s" and v: "vgmdata s = Ptr b 0"
    and tl: "track_len_ptr s = Ptr b 18" and ts: "track_start_ptr s = Ptr b 22"
    and c22: "22 \<le> cursor s" and c: "cursor s + 1032 \<le> capacity s"
    and fn: "filename s = Some name"
  shows "\<exists>s'. vgm_close s = Inr s' \<and>
           files s' = files s @ [(name, patch_length (stream s @ varlen_bytes (delayq s div 10)
                                                        @ [0xFF, 0x2F, 0x00]))] \<and>
           delayq s' = (if 10 \<le> delayq s then 0 else delayq s) \<and>
           data s' = Null \<and> vgmdata s' = Null \<and> filename s' = None \<and> heap s' b = None"
proof -
  define xs where "xs = varlen_bytes (delayq s div 10) @ [0xFF, 0x2F, 0x00]"
  have lx: "length xs \<le> 8" using varlen_bytes_length [of "delayq s div 10"] by (simp add: xs_def)
  have "appends (steps (map write_u8 xs)) xs" by (rule appends_write_all)
  from appends_run_steady [OF this, of "flushed s"] ob c lx
  obtain s1 where s1: "steps (map write_u8 xs) (flushed s) = Inr s1" "open_buffer s1"
      "stream s1 = stream s @ xs" "frame (flushed s) s1" "steady (flushed s) s1"
    by auto
  define st where "st = stream s @ xs"
  define n where "n = length st"
  from s1(5) v have v1: "vgmdata s1 = Ptr b 0" by (simp add: steady_def)
  from s1(2,3) have cur1: "cursor s1 = n" using length_stream [of s1] by (simp add: n_def st_def)
  with open_buffer_data [OF s1(2) v1] have d1: "data s1 = Ptr b n" by simp
  from ob c22 have "22 \<le> length (stream s)" by (simp add: length_stream)
  then have n25: "25 \<le> n" by (simp add: n_def st_def xs_def)
  from s1(2) d1 obtain blk where blk: "heap s1 b = Some blk" "bsize blk = unat (buffer_size s1)"
      "n \<le> bsize blk"
    by (auto simp: open_buffer_def split: option.splits)
  from s1(4) tl ts fn have t1: "track_len_ptr s1 = Ptr b 18" "track_start_ptr s1 = Ptr b 22"
      "filename s1 = Some name" "files s1 = files s"
      "delayq s1 = (if 10 \<le> delayq s then 0 else delayq s)"
    by (simp_all add: frame_def)
  from s1(3) blk d1 have bytes1: "map (bytes blk) [0..<n] = st"
    by (simp add: stream_def st_def)
  define tlen :: u32 where "tlen = of_nat n - 22"
  have wi: "(of_nat (n - 22) :: u32) = tlen"
    using n25 by (simp add: tlen_def of_nat_diff)
  define blk' where "blk' = blk\<lparr>bytes := (bytes blk)
      (18 := ucast (drop_bit 24 tlen AND 0xFF), 19 := ucast (drop_bit 16 tlen AND 0xFF),
       20 := ucast (drop_bit 8 tlen AND 0xFF), 21 := ucast (drop_bit 0 tlen AND 0xFF))\<rparr>"
  define s2 where "s2 = s1\<lparr>heap := (heap s1)(b \<mapsto> blk')\<rparr>"
  have patch: "(if track_len_ptr s1 \<noteq> Null \<and> track_start_ptr s1 \<noteq> Null
             then (case ptr_diff (data s1) (track_start_ptr s1) of
                     Inl e \<Rightarrow> Inl e
                   | Inr d \<Rightarrow>
                       (let track_length = (word_of_int d :: u32)
                        in steps
                             [store_u8 (track_len_ptr s1) 0 (ucast (drop_bit 24 track_length AND 0xFF)),
                              store_u8 (track_len_ptr s1) 1 (ucast (drop_bit 16 track_length AND 0xFF)),
                              store_u8 (track_len_ptr s1) 2 (ucast (drop_bit 8 track_length AND 0xFF)),
                              store_u8 (track_len_ptr s1) 3 (ucast (drop_bit 0 track_length AND 0xFF))]
                             s1))
             else Inr s1) = Inr s2"
    using t1 d1 blk n25
    by (simp add: ptr_diff_def Let_def steps.simps store_u8_def s2_def blk'_def tlen_def)
  have file_bytes: "map (bytes blk') [0..<n] = patch_length st"
    using n25 bytes1
    by (simp add: blk'_def patch_length_def Let_def map_fun_upd_upt wi n_def [symmetric])
  have wf: "(case ptr_diff (data s2) (vgmdata s2) of
               Inl e \<Rightarrow> Inl e
             | Inr total_size \<Rightarrow> write_file (filename s2) (vgmdata s2) total_size s2)
        = Inr (s2\<lparr>files := files s @ [(name, patch_length st)]\<rparr>)"
    using d1 v1 t1 blk file_bytes
    by (simp add: s2_def ptr_diff_def write_file_def blk'_def)
  define s3 where "s3 = s2\<lparr>files := files s @ [(name, patch_length st)]\<rparr>"
  have fr: "free (vgmdata s3) s3 = Inr (s3\<lparr>heap := (heap s3)(b := None)\<rparr>)"
    using v1 by (simp add: s3_def s2_def free_def)
  define s4 where "s4 = s3\<lparr>heap := (heap s3)(b := None), vgmdata := Null, data := Null, filename := None\<rparr>"
  have "vgm_close s = Inr s4"
    unfolding vgm_close_steps steps_append xs_def [symmetric] s1(1)
    using patch wf fr
    by (simp add: steps.simps s3_def s4_def)
  moreover have "files s4 = files s @ [(name, patch_length st)]"
    "delayq s4 = (if 10 \<le> delayq s then 0 else delayq s)"
    "data s4 = Null" "vgmdata s4 = Null" "filename s4 = None" "heap s4 b = None"
    using t1 by (simp_all add: s4_def s3_def s2_def)
  ultimately show ?thesis unfolding st_def xs_def by blast
qed

lemma observe_simps [simp]: "observe f (Inr s) = Inr (f s)" "observe f (Inl e) = Inl e"
  by (simp_all add: observe_def)

lemma delayq_update_simps [simp]:
  "open_buffer (s\<lparr>delayq := d\<rparr>) = open_buffer s"
  "stream (s\<lparr>delayq := d\<rparr>) = stream s"
  "cursor (s\<lparr>delayq := d\<rparr>) = cursor s"
  "capacity (s\<lparr>delayq := d\<rparr>) = capacity s"
  "writable (s\<lparr>delayq := d\<rparr>) = writable s"
  "closable (s\<lparr>delayq := d\<rparr>) = closable s"
  by (simp_all add: open_buffer_def stream_def cursor_def capacity_def writable_def closable_def
        cong: ptr.case_cong option.case_cong)

lemma vgm_write_ok:
  assumes w: "writable s"
  shows "\<exists>s'. vgm_write command port reg value s = Inr s' \<and> open_buffer s' \<and>
           stream s' = stream s @ varlen_bytes (delayq s div 10) @ payload command port reg value \<and>
           frame (flushed s) s'"
proof -
  let ?xs = "varlen_bytes (delayq s div 10) @ payload command port reg value"
  from w have r: "room 1024 (flushed s)" by (simp add: writable_room)
  have l: "length ?xs \<le> 1024"
    using varlen_bytes_length [of "delayq s div 10"] payload_length [of command port reg "value"]
    by simp
  from appends_run [OF appends_write_all r l] show ?thesis
    by (auto simp: vgm_write_steps)
qed

lemma vgm_write_steady:
  assumes ob: "open_buffer s" and c: "cursor s + 1032 \<le> capacity s"
  shows "\<exists>s'. vgm_write command port reg value s = Inr s' \<and> open_buffer s' \<and>
           stream s' = stream s @ varlen_bytes (delayq s div 10) @ payload command port reg value \<and>
           frame (flushed s) s' \<and> steady s s'"
proof -
  let ?xs = "varlen_bytes (delayq s div 10) @ payload command port reg value"
  have l: "length ?xs \<le> 8"
    using varlen_bytes_length [of "delayq s div 10"] payload_length [of command port reg "value"]
    by simp
  with c have "cursor (flushed s) + length ?xs + 1024 \<le> capacity (flushed s)" by simp
  from appends_run_steady [OF appends_write_all _ this] ob show ?thesis
    by (auto simp: vgm_write_steps steady_def)
qed

lemma vgm_write_tag_ok:
  assumes w: "writable s"
  shows "\<exists>s'. vgm_write_tag gamename songid ts s = Inr s' \<and> open_buffer s' \<and>
           stream s' = stream s @ varlen_bytes (delayq s div 10) @ tag_bytes gamename songid ts \<and>
           frame (flushed s) s'"
proof -
  let ?n = "of_nat (length (tag_text gamename songid ts)) :: u32"
  let ?xs = "(varlen_bytes (delayq s div 10) @ [0xFF, 0x01] @ varlen_bytes ?n)
               @ tag_text gamename songid ts"
  from w have r: "room 1024 (flushed s)" by (simp add: writable_room)
  have l: "length ?xs \<le> 1024"
    using varlen_bytes_length [of "delayq s div 10"] varlen_bytes_length [of ?n]
      tag_text_length [of gamename songid ts]
    by simp
  from appends_run [OF tag_appends r l] show ?thesis
    by (auto simp: vgm_write_tag_steps tag_bytes_def)
qed

lemma song_open_facts:
  "vgm_open ''song'' (power_on (always InPlace) no_junk) = Inr song_open"
  "open_buffer song_open" "stream song_open = smf_prologue" "buffer_size song_open = 50000000"
  "vgmdata song_open = Ptr 0 0" "track_len_ptr song_open = Ptr 0 18"
  "track_start_ptr song_open = Ptr 0 22" "delayq song_open = 0"
  "filename song_open = Some ''song.mid''" "files song_open = []"
proof -
  let ?b = "power_on (always InPlace) no_junk"
  have "alloc_oracle ?b (alloc_calls ?b) \<noteq> Fails" "alloc_oracle ?b (Suc (alloc_calls ?b)) \<noteq> Fails"
    by (simp_all add: power_on_def always_def)
  from vgm_open_ok [OF this, of "''song''"] obtain s' where
    s': "vgm_open ''song'' ?b = Inr s'" "open_buffer s'" "stream s' = smf_prologue"
      "buffer_size s' = 50000000" "vgmdata s' = Ptr (next_block ?b) 0"
      "track_len_ptr s' = Ptr (next_block ?b) 18" "track_start_ptr s' = Ptr (next_block ?b) 22"
      "delayq s' = 0" "filename s' = Some (mid_name ''song'')" "files s' = files ?b"
    by blast
  from s'(1) have e: "song_open = s'" by (simp add: song_open_def)
  show "vgm_open ''song'' (power_on (always InPlace) no_junk) = Inr song_open"
    "open_buffer song_open" "stream song_open = smf_prologue" "buffer_size song_open = 50000000"
    "vgmdata song_open = Ptr 0 0" "track_len_ptr song_open = Ptr 0 18"
    "track_start_ptr song_open = Ptr 0 22" "delayq song_open = 0"
    "filename song_open = Some ''song.mid''" "files song_open = []"
    unfolding e using s' by (simp_all add: power_on_def mid_name_def)
qed

lemma song_open_cursor: "cursor song_open = 22" "capacity song_open = 50000000"
  using length_stream [OF song_open_facts(2)] song_open_facts(3,4)
  by (simp_all add: capacity_def)

lemma song_open_writable: "writable song_open" "closable song_open"
  using song_open_facts song_open_cursor by (simp_all add: writable_def closable_def)

lemma varlen_small: "varlen_bytes 0 = [0]" "varlen_bytes 2 = [2]" "varlen_bytes 3 = [3]"
  "varlen_bytes 5 = [5]"
  by (simp_all add: varlen_bytes_def varlen_loop.simps)

lemma song_after_facts:
  "vgm_delay d song_open = Inr (song_after d)" "delayq (song_after d) = d"
  "stream (song_after d) = smf_prologue" "writable (song_after d)" "closable (song_after d)"
  using song_open_facts song_open_writable
  by (simp_all add: song_after_def vgm_delay_def)

lemma delay30:
  fixes d :: u32
  assumes "d < 10"
  shows "(d + 30) div 10 = 3" "10 \<le> d + 30"
proof -
  from assms have u: "unat d < 10" by (simp add: word_less_nat_alt)
  have "unat (d + 30) = (unat d + 30) mod 2 ^ 32" by (simp add: unat_word_ariths)
  with u have s: "unat (d + 30) = unat d + 30" by simp
  have "unat ((d + 30) div 10) = unat (d + 30) div 10" by (simp add: unat_div)
  with s u have "unat ((d + 30) div 10) = unat (3 :: u32)" by simp
  then show "(d + 30) div 10 = 3" by (simp only: word_unat_eq_iff)
  from s show "10 \<le> d + 30" by (simp add: word_le_nat_alt)
qed

lemma patch_length_drop: "drop 22 (patch_length st) = drop 22 st"
  by (simp add: patch_length_def Let_def)

lemma patch_length_head: "take 14 (patch_length st) = take 14 st"
  by (simp add: patch_length_def Let_def)

lemma four_updates:
  assumes "22 \<le> length st"
  shows "take 4 (drop 18 (st[18 := a, 19 := b, 20 := c, 21 := d])) = [a, b, c, d]"
proof (rule nth_equalityI)
  from assms show "length (take 4 (drop 18 (st[18 := a, 19 := b, 20 := c, 21 := d])))
      = length [a, b, c, d]" by simp
next
  fix i assume "i < length (take 4 (drop 18 (st[18 := a, 19 := b, 20 := c, 21 := d])))"
  with assms have "i < 4" by simp
  then consider "i = 0" | "i = 1" | "i = 2" | "i = 3" by linarith
  then show "take 4 (drop 18 (st[18 := a, 19 := b, 20 := c, 21 := d])) ! i = [a, b, c, d] ! i"
    using assms by cases (simp_all add: nth_list_update)
qed

lemma patch_length_field:
  "22 \<le> length st \<Longrightarrow>
     take 4 (drop 18 (patch_length st)) = be32_bytes (of_nat (length st - 22))"
  by (simp add: patch_length_def Let_def four_updates be32_bytes_def)

lemma last_file_append [simp]: "last_file (s\<lparr>files := fs @ [(name, bs)]\<rparr>) = bs"
  by (simp add: last_file_def)

lemma vgm_close_closable:
  assumes cl: "closable s"
  shows "\<exists>s' name. vgm_close s = Inr s' \<and> filename s = Some name \<and>
           files s' = files s @ [(name, patch_length (stream s @ varlen_bytes (delayq s div 10)
                                                        @ [0xFF, 0x2F, 0x00]))] \<and>
           delayq s' = (if 10 \<le> delayq s then 0 else delayq s) \<and> data s' = Null"
proof -
  from cl have ob: "open_buffer s" by (simp add: closable_def)
  then obtain b where v: "vgmdata s = Ptr b 0" by (auto elim: open_bufferE)
  from cl v have t: "track_len_ptr s = Ptr b 18" "track_start_ptr s = Ptr b 22"
      "22 \<le> cursor s" "cursor s + 1032 \<le> capacity s"
    by (simp_all add: closable_def)
  from cl obtain name where n: "filename s = Some name" by (auto simp: closable_def)
  from vgm_close_ok [OF ob v t n] n show ?thesis by blast
qed

lemma last_file_files: "files s = fs @ [(name, bs)] \<Longrightarrow> last_file s = bs"
  by (simp add: last_file_def)

lemma scenario_run:
  assumes m1: "alloc_oracle s0 (alloc_calls s0) \<noteq> Fails"
    and m2: "alloc_oracle s0 (Suc (alloc_calls s0)) \<noteq> Fails"
  shows "\<exists>s'. session ''song'' scenario s0 = Inr s' \<and>
           files s' = files s0 @ [(''song.mid'',
              patch_length (smf_prologue @ [0x00, 0x90, 0x3C, 0x64, 0x05, 0x80, 0x3C, 0x00,
                                            0x00, 0xFF, 0x2F, 0x00]))]"
proof -
  from vgm_open_ok [OF m1 m2, of "''song''"] obtain s1 where
    s1: "vgm_open ''song'' s0 = Inr s1" "open_buffer s1" "stream s1 = smf_prologue"
      "buffer_size s1 = 50000000" "vgmdata s1 = Ptr (next_block s0) 0"
      "track_len_ptr s1 = Ptr (next_block s0) 18" "track_start_ptr s1 = Ptr (next_block s0) 22"
      "delayq s1 = 0" "filename s1 = Some (mid_name ''song'')" "files s1 = files s0"
    by blast
  have c1: "cursor s1 = 22" "capacity s1 = 50000000"
    using length_stream [OF s1(2)] s1(3,4) by (simp_all add: capacity_def)
  from vgm_write_steady [OF s1(2), of "0x90" 0 60 100] c1 obtain s2 where
    s2: "vgm_write 0x90 0 60 100 s1 = Inr s2" "open_buffer s2"
      "stream s2 = stream s1 @ varlen_bytes (delayq s1 div 10) @ payload 0x90 0 60 100"
      "frame (flushed s1) s2" "steady s1 s2"
    by auto
  have st2: "stream s2 = smf_prologue @ [0x00, 0x90, 0x3C, 0x64]"
    using s2(3) s1(3,8) by (simp add: varlen_small payload_def)
  have c2: "cursor s2 = 26" "capacity s2 = 50000000" "delayq s2 = 0"
    using length_stream [OF s2(2)] st2 s2(4,5) s1(4,8) by (simp_all add: capacity_def steady_def frame_def)
  define s3 where "s3 = s2\<lparr>delayq := 50\<rparr>"
  have e3: "vgm_delay 50 s2 = Inr s3" using c2(3) by (simp add: vgm_delay_def s3_def)
  have ob3: "open_buffer s3" and c3: "cursor s3 = 26" "capacity s3 = 50000000" "delayq s3 = 50"
    and st3: "stream s3 = smf_prologue @ [0x00, 0x90, 0x3C, 0x64]"
    using s2(2) c2 st2 by (simp_all add: s3_def)
  from vgm_write_steady [OF ob3, of "0x80" 0 60 0] c3 obtain s4 where
    s4: "vgm_write 0x80 0 60 0 s3 = Inr s4" "open_buffer s4"
      "stream s4 = stream s3 @ varlen_bytes (delayq s3 div 10) @ payload 0x80 0 60 0"
      "frame (flushed s3) s4" "steady s3 s4"
    by auto
  have st4: "stream s4 = smf_prologue @ [0x00, 0x90, 0x3C, 0x64, 0x05, 0x80, 0x3C, 0x00]"
    using s4(3) st3 c3(3) by (simp add: varlen_small payload_def)
  have c4: "cursor s4 = 30" "capacity s4 = 50000000" "delayq s4 = 0"
    using length_stream [OF s4(2)] st4 s4(4,5) c3 by (simp_all add: capacity_def steady_def frame_def)
  have p4: "vgmdata s4 = Ptr (next_block s0) 0" "track_len_ptr s4 = Ptr (next_block s0) 18"
    "track_start_ptr s4 = Ptr (next_block s0) 22" "filename s4 = Some ''song.mid''"
    "files s4 = files s0"
    using s1 s2(4,5) s4(4,5) by (simp_all add: steady_def frame_def s3_def mid_name_def)
  from vgm_close_ok [OF s4(2) p4(1,2,3) _ _ p4(4)] c4 obtain s5 where
    s5: "vgm_close s4 = Inr s5"
      "files s5 = files s4 @ [(''song.mid'', patch_length (stream s4 @ varlen_bytes (delayq s4 div 10)
                                                        @ [0xFF, 0x2F, 0x00]))]"
    by auto
  have "session ''song'' scenario s0 = Inr s5"
    using s1(1) s2(1) e3 s4(1) s5(1) by (simp add: session_def scenario_def steps.simps)
  moreover have "files s5 = files s0 @ [(''song.mid'',
              patch_length (smf_prologue @ [0x00, 0x90, 0x3C, 0x64, 0x05, 0x80, 0x3C, 0x00,
                                            0x00, 0xFF, 0x2F, 0x00]))]"
    using s5(2) p4(5) st4 c4(3) by (simp add: varlen_small)
  ultimately show ?thesis by blast
qed

lemma scenario_observed:
  assumes m1: "alloc_oracle s0 (alloc_calls s0) \<noteq> Fails"
    and m2: "alloc_oracle s0 (Suc (alloc_calls s0)) \<noteq> Fails"
  shows "observe track_payload (session ''song'' scenario s0)
           = Inr [0x00, 0x90, 0x3C, 0x64, 0x05, 0x80, 0x3C, 0x00, 0x00, 0xFF, 0x2F, 0x00]"
    and "observe track_length_field (session ''song'' scenario s0) = Inr [0, 0, 0, 12]"
proof -
  from scenario_run [OF m1 m2] obtain s' where
    s': "session ''song'' scenario s0 = Inr s'" "files s' = files s0 @ [(''song.mid'',
              patch_length (smf_prologue @ [0x00, 0x90, 0x3C, 0x64, 0x05, 0x80, 0x3C, 0x00,
                                            0x00, 0xFF, 0x2F, 0x00]))]"
    by blast
  from s'(2) have lf: "last_file s' = patch_length (smf_prologue @
      [0x00, 0x90, 0x3C, 0x64, 0x05, 0x80, 0x3C, 0x00, 0x00, 0xFF, 0x2F, 0x00])"
    by (rule last_file_files)
  show "observe track_payload (session ''song'' scenario s0)
           = Inr [0x00, 0x90, 0x3C, 0x64, 0x05, 0x80, 0x3C, 0x00, 0x00, 0xFF, 0x2F, 0x00]"
    by (simp add: s'(1) track_payload_def lf patch_length_drop)
  show "observe track_length_field (session ''song'' scenario s0) = Inr [0, 0, 0, 12]"
    by (simp add: s'(1) track_length_field_def lf patch_length_field be32_bytes_def)
qed

lemma boot_mallocs:
  "alloc_oracle (power_on (always InPlace) no_junk) (alloc_calls (power_on (always InPlace) no_junk)) \<noteq> Fails"
  "alloc_oracle (power_on (always InPlace) no_junk) (Suc (alloc_calls (power_on (always InPlace) no_junk))) \<noteq> Fails"
  by (simp_all add: power_on_def always_def)

lemma write_u8_null: "data s = Null \<Longrightarrow> write_u8 v s = Inl NullDeref"
  by (simp add: write_u8_def store_u8_def)

lemma write_all_null:
  "data s = Null \<Longrightarrow> xs \<noteq> [] \<Longrightarrow> steps (map write_u8 xs @ fs) s = Inl NullDeref"
  by (cases xs) (simp_all add: steps.simps write_u8_null)

lemma pending_delta_null: "data s = Null \<Longrightarrow> write_pending_delta s = Inl NullDeref"
  using write_all_null [of "flushed s" "varlen_bytes (delayq s div 10)" "[]"]
  by (simp add: pending_delta write_varlen_def varlen_bytes_nonempty)

lemma vgm_close_null: "data s = Null \<Longrightarrow> vgm_close s = Inl NullDeref"
  by (simp add: vgm_close_def steps_Inl pending_delta_null)

lemma vgm_close_clears:
  assumes "vgm_close s = Inr s'"
  shows "data s' = Null \<and> vgmdata s' = Null \<and> filename s' = None"
proof -
  define clear where "clear = (\<lambda>s :: vgm_state. (Inr (s\<lparr>vgmdata := Null, data := Null, filename := None\<rparr>) :: fault + vgm_state))"
  obtain fs where e: "vgm_close = steps (fs @ [clear])"
  proof
    show "vgm_close = steps (butlast
       [write_pending_delta, write_u8 0xFF, write_u8 0x2F, write_u8 0x00,
        \<lambda>s. if track_len_ptr s \<noteq> Null \<and> track_start_ptr s \<noteq> Null
             then (case ptr_diff (data s) (track_start_ptr s) of
                     Inl e \<Rightarrow> Inl e
                   | Inr d \<Rightarrow>
                       (let track_length = (word_of_int d :: u32)
                        in steps
                             [store_u8 (track_len_ptr s) 0 (ucast (drop_bit 24 track_length AND 0xFF)),
                              store_u8 (track_len_ptr s) 1 (ucast (drop_bit 16 track_length AND 0xFF)),
                              store_u8 (track_len_ptr s) 2 (ucast (drop_bit 8 track_length AND 0xFF)),
                              store_u8 (track_len_ptr s) 3 (ucast (drop_bit 0 track_length AND 0xFF))]
                             s))
             else Inr s,
        \<lambda>s. case ptr_diff (data s) (vgmdata s) of
               Inl e \<Rightarrow> Inl e
             | Inr total_size \<Rightarrow> write_file (filename s) (vgmdata s) total_size s,
        \<lambda>s. free (vgmdata s) s,
        clear] @ [clear])"
      by (simp add: vgm_close_def clear_def)
  qed
  from assms obtain t where "clear t = Inr s'"
    unfolding e by (auto simp: steps_append steps.simps split: sum.splits)
  then show ?thesis by (auto simp: clear_def)
qed

lemma smf_header_bytes:
  "smf_header = [0x4D, 0x54, 0x68, 0x64, 0, 0, 0, 6, 0, 0, 0, 1, 0x01, 0xE0]"
  by (simp add: smf_header_def ascii_def be32_bytes_def be16_bytes_def)

lemma headed_delayq [simp]: "headed fs (s\<lparr>delayq := d\<rparr>) = headed fs s"
  by (simp add: headed_def)

lemma headed_flushed [simp]: "headed fs (flushed s) = headed fs s"
  by (simp add: flushed_def)

lemma headed_appends:
  assumes a: "appends f xs" and h: "headed fs s" and r: "f s = Inr s'"
  shows "headed fs s'"
proof -
  from h have ob: "open_buffer s" by (simp add: headed_def)
  from appendsD1 [OF a ob r] have 1: "open_buffer s'" "stream s' = stream s @ xs" "frame s s'"
    by simp_all
  from h ob have l: "22 \<le> length (stream s)" by (simp add: headed_def length_stream)
  from 1 l have "22 \<le> cursor s'" using length_stream [of s'] by simp
  moreover from 1(2) l h have "take 14 (stream s') = smf_header" by (simp add: headed_def)
  ultimately show ?thesis using 1 h by (simp add: headed_def frame_def)
qed

lemma headed_exec:
  assumes h: "headed fs s" and e: "exec c s = Inr s'"
  shows "headed fs s'"
proof (cases c)
  case (Write command port reg val)
  with e have "steps (map write_u8 (varlen_bytes (delayq s div 10) @ payload command port reg val))
      (flushed s) = Inr s'" by (simp add: vgm_write_steps)
  from headed_appends [OF appends_write_all _ this] h show ?thesis by simp
next
  case (WriteTag gamename songid ts)
  with e have "steps (map write_u8 (varlen_bytes (delayq s div 10) @ [0xFF, 0x01]
                @ varlen_bytes (of_nat (length (tag_text gamename songid ts))))
            @ [write_bytes (tag_text gamename songid ts)]) (flushed s) = Inr s'"
    by (simp add: vgm_write_tag_steps)
  from headed_appends [OF tag_appends _ this] h show ?thesis by simp
next
  case (Delay delay)
  with e h show ?thesis by (auto simp: vgm_delay_def)
next
  case (Poke32 offset d)
  with e h show ?thesis by (simp add: vgm_poke32_def)
next
  case (Poke8 offset d)
  with e h show ?thesis by (simp add: vgm_poke8_def)
next
  case (Datablock dbtype dbsize datablock maxsize mask_arg flags)
  with e h show ?thesis by (simp add: vgm_datablock_def)
next
  case Setloop
  with e h show ?thesis by (simp add: vgm_setloop_def)
qed

lemma null_exec:
  assumes n: "data s = Null" and e: "exec c s = Inr s'"
  shows "data s' = Null"
proof (cases c)
  case (Write command port reg val)
  have "varlen_bytes (delayq s div 10) @ payload command port reg val \<noteq> []"
    by (simp add: varlen_bytes_nonempty)
  from write_all_null [OF _ this, of "flushed s" "[]"] n
  have "vgm_write command port reg val s = Inl NullDeref" by (simp add: vgm_write_steps)
  with e Write show ?thesis by simp
next
  case (WriteTag gamename songid ts)
  have "varlen_bytes (delayq s div 10) @ [0xFF, 0x01]
                @ varlen_bytes (of_nat (length (tag_text gamename songid ts))) \<noteq> []"
    by simp
  from write_all_null [OF _ this, of "flushed s" "[write_bytes (tag_text gamename songid ts)]"] n
  have "vgm_write_tag gamename songid ts s = Inl NullDeref" by (simp add: vgm_write_tag_steps)
  with e WriteTag show ?thesis by simp
next
  case (Delay delay)
  with e n show ?thesis by (auto simp: vgm_delay_def)
next
  case (Poke32 offset d)
  with e n show ?thesis by (simp add: vgm_poke32_def)
next
  case (Poke8 offset d)
  with e n show ?thesis by (simp add: vgm_poke8_def)
next
  case (Datablock dbtype dbsize datablock maxsize mask_arg flags)
  with e n show ?thesis by (simp add: vgm_datablock_def)
next
  case Setloop
  with e n show ?thesis by (simp add: vgm_setloop_def)
qed

lemma headed_run: "headed fs s \<Longrightarrow> steps (map exec calls) s = Inr s' \<Longrightarrow> headed fs s'"
proof (induction calls arbitrary: s)
  case Nil
  then show ?case by (simp add: steps.simps)
next
  case (Cons c calls)
  from Cons.prems(2) obtain t where t: "exec c s = Inr t" "steps (map exec calls) t = Inr s'"
    by (auto simp: steps.simps split: sum.splits)
  from headed_exec [OF Cons.prems(1) t(1)] t(2) show ?case by (rule Cons.IH)
qed

lemma null_run: "data s = Null \<Longrightarrow> steps (map exec calls) s = Inr s' \<Longrightarrow> data s' = Null"
proof (induction calls arbitrary: s)
  case Nil
  then show ?case by (simp add: steps.simps)
next
  case (Cons c calls)
  from Cons.prems(2) obtain t where t: "exec c s = Inr t" "steps (map exec calls) t = Inr s'"
    by (auto simp: steps.simps split: sum.splits)
  from null_exec [OF Cons.prems(1) t(1)] t(2) show ?case by (rule Cons.IH)
qed

lemma keeps_head_refl [simp]: "keeps_head s s"
  by (simp add: keeps_head_def)

lemma keeps_head_trans: "keeps_head s t \<Longrightarrow> keeps_head t u \<Longrightarrow> keeps_head s u"
  unfolding keeps_head_def by (metis (no_types, lifting))

lemma store_keeps: "store_u8 (Ptr b0 18) i v s = Inr s' \<Longrightarrow> keeps_head s s'"
  by (auto simp: store_u8_def keeps_head_def split: option.splits if_splits)

lemma patch_keeps:
  assumes p: "(if track_len_ptr s \<noteq> Null \<and> track_start_ptr s \<noteq> Null
             then (case ptr_diff (data s) (track_start_ptr s) of
                     Inl e \<Rightarrow> Inl e
                   | Inr d \<Rightarrow>
                       (let track_length = (word_of_int d :: u32)
                        in steps
                             [store_u8 (track_len_ptr s) 0 (ucast (drop_bit 24 track_length AND 0xFF)),
                              store_u8 (track_len_ptr s) 1 (ucast (drop_bit 16 track_length AND 0xFF)),
                              store_u8 (track_len_ptr s) 2 (ucast (drop_bit 8 track_length AND 0xFF)),
                              store_u8 (track_len_ptr s) 3 (ucast (drop_bit 0 track_length AND 0xFF))]
                             s))
             else Inr s) = Inr s'"
    and t: "track_len_ptr s = Ptr b0 18"
  shows "keeps_head s s'"
proof (cases "track_start_ptr s = Null")
  case True
  with p show ?thesis by simp
next
  case False
  with p t obtain d where d: "ptr_diff (data s) (track_start_ptr s) = Inr d"
    by (auto split: sum.splits)
  define w :: u32 where "w = word_of_int d"
  from p t False d have "steps
       [store_u8 (Ptr b0 18) 0 (ucast (drop_bit 24 w AND 0xFF)),
        store_u8 (Ptr b0 18) 1 (ucast (drop_bit 16 w AND 0xFF)),
        store_u8 (Ptr b0 18) 2 (ucast (drop_bit 8 w AND 0xFF)),
        store_u8 (Ptr b0 18) 3 (ucast (drop_bit 0 w AND 0xFF))] s = Inr s'"
    by (simp add: Let_def w_def)
  then obtain a1 a2 a3 where
    "store_u8 (Ptr b0 18) 0 (ucast (drop_bit 24 w AND 0xFF)) s = Inr a1"
    "store_u8 (Ptr b0 18) 1 (ucast (drop_bit 16 w AND 0xFF)) a1 = Inr a2"
    "store_u8 (Ptr b0 18) 2 (ucast (drop_bit 8 w AND 0xFF)) a2 = Inr a3"
    "store_u8 (Ptr b0 18) 3 (ucast (drop_bit 0 w AND 0xFF)) a3 = Inr s'"
    by (auto simp: steps.simps split: sum.splits)
  then have "keeps_head s a1" "keeps_head a1 a2" "keeps_head a2 a3" "keeps_head a3 s'"
    by (auto intro: store_keeps)
  then show ?thesis by (blast intro: keeps_head_trans)
qed

lemma write_file_Inr:
  assumes "write_file fn p n s = Inr s'"
  obtains name b off blk where "fn = Some name" "p = Ptr b off" "heap s b = Some blk"
    "files s' = files s @ [(name, map (bytes blk) [off..<off + nat n])]"
  using assms by (auto simp: write_file_def split: option.splits ptr.splits if_splits)

lemma free_files: "free p s = Inr s' \<Longrightarrow> files s' = files s"
  by (auto simp: free_def split: option.splits ptr.splits if_splits)

lemma steps_ConsE:
  assumes "steps (f # fs) s = Inr s'"
  obtains t where "f s = Inr t" "steps fs t = Inr s'"
  using assms by (cases "f s") (simp_all add: steps.simps)

lemma steps_appendE:
  assumes "steps (fs @ gs) s = Inr s'"
  obtains t where "steps fs s = Inr t" "steps gs t = Inr s'"
  using assms by (cases "steps fs s") (simp_all add: steps_append)

lemma headed_close:
  assumes h: "headed fs s" and c: "vgm_close s = Inr s'"
  shows "\<exists>name bs. files s' = fs @ [(name, bs)] \<and> take 14 bs = smf_header"
proof -
  define xs where "xs = varlen_bytes (delayq s div 10) @ [0xFF, 0x2F, 0x00]"
  define P where "P = (\<lambda>s. if track_len_ptr s \<noteq> Null \<and> track_start_ptr s \<noteq> Null
             then (case ptr_diff (data s) (track_start_ptr s) of
                     Inl e \<Rightarrow> Inl e
                   | Inr d \<Rightarrow>
                       (let track_length = (word_of_int d :: u32)
                        in steps
                             [store_u8 (track_len_ptr s) 0 (ucast (drop_bit 24 track_length AND 0xFF)),
                              store_u8 (track_len_ptr s) 1 (ucast (drop_bit 16 track_length AND 0xFF)),
                              store_u8 (track_len_ptr s) 2 (ucast (drop_bit 8 track_length AND 0xFF)),
                              store_u8 (track_len_ptr s) 3 (ucast (drop_bit 0 track_length AND 0xFF))]
                             s))
             else Inr s)"
  define W where "W = (\<lambda>s. case ptr_diff (data s) (vgmdata s) of
               Inl e \<Rightarrow> Inl e
             | Inr total_size \<Rightarrow> write_file (filename s) (vgmdata s) total_size s)"
  define F where "F = (\<lambda>s. free (vgmdata s) s)"
  define C where "C = (\<lambda>s :: vgm_state.
      (Inr (s\<lparr>vgmdata := Null, data := Null, filename := None\<rparr>) :: fault + vgm_state))"
  have "vgm_close s = steps (map write_u8 xs @ [P, W, F, C]) (flushed s)"
    unfolding vgm_close_steps xs_def P_def W_def F_def C_def ..
  with c have "steps (map write_u8 xs @ [P, W, F, C]) (flushed s) = Inr s'" by simp
  then obtain s1 where s1: "steps (map write_u8 xs) (flushed s) = Inr s1"
    and r1: "steps [P, W, F, C] s1 = Inr s'" by (rule steps_appendE)
  from r1 obtain s2 where p2: "P s1 = Inr s2" and r2: "steps [W, F, C] s2 = Inr s'"
    by (rule steps_ConsE)
  from r2 obtain s3 where p3: "W s2 = Inr s3" and r3: "steps [F, C] s3 = Inr s'"
    by (rule steps_ConsE)
  from r3 obtain s4 where p4: "F s3 = Inr s4" and r4: "steps [C] s4 = Inr s'"
    by (rule steps_ConsE)
  from r4 have s5: "s' = s4\<lparr>vgmdata := Null, data := Null, filename := None\<rparr>"
    by (simp add: steps_single C_def)
  note s2 = p2 [unfolded P_def]
  note s3 = p3 [unfolded W_def]
  note s4 = p4 [unfolded F_def]
  from headed_appends [OF appends_write_all _ s1] h have h1: "headed fs s1" by simp
  then obtain b0 where t1: "track_len_ptr s1 = Ptr b0 18"
    by (auto simp: headed_def split: ptr.splits)
  from patch_keeps [OF s2 t1] have k: "keeps_head s1 s2" .
  from h1 have ob1: "open_buffer s1" by (simp add: headed_def)
  then obtain b c blk where d1: "data s1 = Ptr b c" "vgmdata s1 = Ptr b 0" "heap s1 b = Some blk"
    by (rule open_bufferE)
  from h1 d1 have c22: "22 \<le> c" and hd: "take 14 (map (bytes blk) [0..<c]) = smf_header"
    by (simp_all add: headed_def cursor_def stream_def)
  from k d1 obtain blk' where blk': "heap s2 b = Some blk'" "\<forall>j<18. bytes blk' j = bytes blk j"
    unfolding keeps_head_def by blast
  from k d1 have d2: "data s2 = Ptr b c" "vgmdata s2 = Ptr b 0" "files s2 = files s1"
    by (simp_all add: keeps_head_def)
  from s3 d2 have wf: "write_file (filename s2) (Ptr b 0) (int c) s2 = Inr s3"
    by (simp add: ptr_diff_def)
  from wf blk' d2 obtain name where
    f3: "files s3 = files s1 @ [(name, map (bytes blk') [0..<c])]"
    by (auto elim!: write_file_Inr)
  from c22 blk'(2) have "take 14 (map (bytes blk') [0..<c]) = take 14 (map (bytes blk) [0..<c])"
    by (simp add: take_map min_def)
  with hd have "take 14 (map (bytes blk') [0..<c]) = smf_header" by simp
  moreover from f3 free_files [OF s4] s5 h1
  have "files s' = fs @ [(name, map (bytes blk') [0..<c])]" by (simp add: headed_def)
  ultimately show ?thesis by blast
qed

lemma vgm_open_headed:
  assumes n: "data s0 = Null" and o: "vgm_open fname s0 = Inr s1"
  shows "headed (files s0) s1 \<or> data s1 = Null"
proof (cases "alloc_oracle s0 (alloc_calls s0) = Fails")
  case True
  with o n show ?thesis by (auto simp: vgm_open_def malloc_chars_def Let_def)
next
  case m1: False
  show ?thesis
  proof (cases "alloc_oracle s0 (Suc (alloc_calls s0)) = Fails")
    case True
    with m1 o n show ?thesis by (auto simp: vgm_open_def malloc_chars_def malloc_def Let_def)
  next
    case m2: False
    from vgm_open_ok [OF m1 m2, of fname] o have
      s1: "open_buffer s1" "stream s1 = smf_prologue" "track_len_ptr s1 = Ptr (next_block s0) 18"
        "files s1 = files s0"
      by auto
    from s1(1,2) have "cursor s1 = 22" using length_stream [of s1] by simp
    moreover from s1(2) have "take 14 (stream s1) = smf_header" by (simp add: smf_prologue_def)
    ultimately have "headed (files s0) s1" using s1 by (simp add: headed_def)
    then show ?thesis ..
  qed
qed

lemma grow_succeeds:
  assumes ob: "open_buffer s" and low: "capacity s < cursor s + 1024"
    and small: "capacity s < 2 ^ 31"
    and r: "alloc_oracle s (alloc_calls s) = r" and ok: "r \<noteq> Fails"
  shows "\<exists>s'. grow_if_needed s = Inr s' \<and> open_buffer s' \<and> stream s' = stream s \<and>
           cursor s' = cursor s \<and> capacity s' = 2 * capacity s \<and> frame s s' \<and>
           vgmdata s' = (if r = InPlace then vgmdata s else Ptr (next_block s) 0) \<and>
           next_block s' = (if r = InPlace then next_block s else Suc (next_block s))"
proof -
  from ob obtain b c blk where d: "data s = Ptr b c" "vgmdata s = Ptr b 0" "heap s b = Some blk"
    "bsize blk = unat (buffer_size s)" "c \<le> bsize blk" by (rule open_bufferE)
  from small have dbl: "unat (buffer_size s * 2) = 2 * unat (buffer_size s)"
    unfolding capacity_def by (rule unat_double)
  from low d have t: "int (unat (buffer_size s)) - int c < 1024"
    by (simp add: cursor_def capacity_def low_water)
  from ok consider "r = InPlace" | "r = Relocates" by (cases r) auto
  then show ?thesis
  proof cases
    case 1
    with r d t dbl show ?thesis
      by (simp add: grow_if_needed_def ptr_diff_def realloc_def ptr_add_def Let_def resized_def
            open_buffer_def cursor_def capacity_def stream_def frame_def)
  next
    case 2
    with r d t dbl show ?thesis
      by (simp add: grow_if_needed_def ptr_diff_def realloc_def ptr_add_def Let_def resized_def
            open_buffer_def cursor_def capacity_def stream_def frame_def)
  qed
qed

lemma grow_overflow:
  assumes ob: "open_buffer s" and low: "capacity s < cursor s + 1024"
    and ok: "alloc_oracle s (alloc_calls s) \<noteq> Fails"
    and wrap: "unat (buffer_size s * 2) < cursor s"
  shows "grow_if_needed s = Inl OutOfBounds"
proof -
  from ob obtain b c blk where d: "data s = Ptr b c" "vgmdata s = Ptr b 0" "heap s b = Some blk"
    "bsize blk = unat (buffer_size s)" "c \<le> bsize blk" by (rule open_bufferE)
  from low d have t: "int (unat (buffer_size s)) - int c < 1024"
    by (simp add: cursor_def capacity_def low_water)
  from wrap d have w: "unat (buffer_size s * 2) < c" by (simp add: cursor_def)
  from ok consider "alloc_oracle s (alloc_calls s) = InPlace"
    | "alloc_oracle s (alloc_calls s) = Relocates"
    by (cases "alloc_oracle s (alloc_calls s)") auto
  then show ?thesis
  proof cases
    case 1
    with d t w show ?thesis
      by (simp add: grow_if_needed_def ptr_diff_def realloc_def ptr_add_def Let_def resized_def)
  next
    case 2
    with d t w show ?thesis
      by (simp add: grow_if_needed_def ptr_diff_def realloc_def ptr_add_def Let_def resized_def)
  qed
qed

lemma write_u8_then_grow:
  assumes ob: "open_buffer s" and c: "cursor s < capacity s"
  shows "\<exists>t. write_u8 v s = grow_if_needed t \<and> open_buffer t \<and> stream t = stream s @ [v] \<and>
           cursor t = Suc (cursor s) \<and> frame s t \<and> steady s t \<and> alloc_calls t = alloc_calls s"
proof -
  from ob obtain b c blk where d: "data s = Ptr b c" "vgmdata s = Ptr b 0" "heap s b = Some blk"
    "bsize blk = unat (buffer_size s)" "c \<le> bsize blk" by (rule open_bufferE)
  from c d have lt: "c < bsize blk" by (simp add: cursor_def capacity_def)
  let ?t = "s\<lparr>heap := (heap s)(b \<mapsto> blk\<lparr>bytes := (bytes blk)(c := v)\<rparr>), data := Ptr b (Suc c)\<rparr>"
  from d lt have "write_u8 v s = grow_if_needed ?t" by (simp add: write_u8_unfold)
  moreover from d lt have "open_buffer ?t" "stream ?t = stream s @ [v]" "cursor ?t = Suc (cursor s)"
    "frame s ?t" "steady s ?t" "alloc_calls ?t = alloc_calls s"
    by (simp_all add: open_buffer_def stream_def cursor_def frame_def steady_def)
  ultimately show ?thesis by blast
qed

lemma note_on_steps:
  "delayq s = 0 \<Longrightarrow> note_on s = steps (map write_u8 [0x00, 0x90, 0x3C, 0x64]) s"
  by (simp add: note_on_def vgm_write_steps varlen_small payload_def flushed_idle)

lemma note_steady:
  assumes p: "playing cap c s" and r: "c + 4 + 1024 \<le> cap"
  shows "\<exists>s'. note_on s = Inr s' \<and> playing cap (c + 4) s' \<and> frame s s' \<and> steady s s'"
proof -
  from p have ob: "open_buffer s" and d: "delayq s = 0" by (simp_all add: playing_def)
  from p r have "cursor s + length [0x00, 0x90, 0x3C, 0x64 :: u8] + 1024 \<le> capacity s"
    by (simp add: playing_def)
  from appends_run_steady [OF appends_write_all ob this] obtain s' where
    s': "steps (map write_u8 [0x00, 0x90, 0x3C, 0x64]) s = Inr s'" "open_buffer s'"
      "stream s' = stream s @ [0x00, 0x90, 0x3C, 0x64]" "frame s s'" "steady s s'"
    by blast
  from s'(2,3) ob p have "cursor s' = c + 4"
    using length_stream [of s'] length_stream [of s] by (simp add: playing_def)
  with s' p have "playing cap (c + 4) s'"
    by (simp add: playing_def frame_def steady_def capacity_def)
  with s' d show ?thesis by (simp add: note_on_steps)
qed

lemma note_iter:
  "playing cap c s \<Longrightarrow> c + 4 * n + 1024 \<le> cap \<Longrightarrow>
     \<exists>s'. steps (replicate n note_on) s = Inr s' \<and> playing cap (c + 4 * n) s' \<and>
          frame s s' \<and> steady s s'"
proof (induction n arbitrary: c s)
  case 0
  then show ?case by (simp add: steps.simps)
next
  case (Suc n)
  from Suc.prems have "c + 4 + 1024 \<le> cap" by simp
  from note_steady [OF Suc.prems(1) this] obtain t where
    t: "note_on s = Inr t" "playing cap (c + 4) t" "frame s t" "steady s t" by blast
  from Suc.prems(2) have "c + 4 + 4 * n + 1024 \<le> cap" by simp
  from Suc.IH [OF t(2) this] obtain s' where
    s': "steps (replicate n note_on) t = Inr s'" "playing cap (c + 4 + 4 * n) s'"
      "frame t s'" "steady t s'" by blast
  from t(3) s'(3) have "frame s s'" by (rule frame_trans)
  moreover from t(4) s'(4) have "steady s s'" by (rule steady_trans)
  moreover from s'(2) have "playing cap (c + 4 * Suc n) s'" by (simp add: add.assoc)
  ultimately show ?case using t(1) s'(1) by (simp add: steps.simps)
qed

lemma note_grows:
  assumes p: "playing cap c s" and m: "c + 1026 = cap" and small: "cap < 2 ^ 31"
    and r: "alloc_oracle s (alloc_calls s) = r" and ok: "r \<noteq> Fails"
  shows "\<exists>s'. note_on s = Inr s' \<and> playing (2 * cap) (c + 4) s' \<and> frame s s' \<and>
           vgmdata s' = (if r = InPlace then vgmdata s else Ptr (next_block s) 0) \<and>
           next_block s' = (if r = InPlace then next_block s else Suc (next_block s))"
proof -
  from p have ob: "open_buffer s" and d: "delayq s = 0" and cap: "capacity s = cap"
    and cur: "cursor s = c" by (simp_all add: playing_def)
  from m cap cur have "cursor s + length [0x00, 0x90 :: u8] + 1024 \<le> capacity s" by simp
  from appends_run_steady [OF appends_write_all ob this] obtain s1 where
    s1: "steps (map write_u8 [0x00, 0x90]) s = Inr s1" "open_buffer s1"
      "stream s1 = stream s @ [0x00, 0x90]" "frame s s1" "steady s s1"
    by blast
  from s1(2,3) ob cur have cur1: "cursor s1 = c + 2"
    using length_stream [of s1] length_stream [of s] by simp
  from s1(5) cap have cap1: "capacity s1 = cap" by (simp add: steady_def capacity_def)
  from cur1 cap1 m have "cursor s1 < capacity s1" by simp
  from write_u8_then_grow [OF s1(2) this, of "0x3C"] obtain t where
    t: "write_u8 0x3C s1 = grow_if_needed t" "open_buffer t" "cursor t = Suc (cursor s1)"
      "frame s1 t" "steady s1 t" "alloc_calls t = alloc_calls s1"
    by blast
  from t(5) cap1 have capt: "capacity t = cap" by (simp add: steady_def capacity_def)
  from t(3) cur1 capt m have low: "capacity t < cursor t + 1024" by simp
  from r s1(4,5) t(4,5,6) have rt: "alloc_oracle t (alloc_calls t) = r"
    by (simp add: frame_def steady_def)
  from small capt have "capacity t < 2 ^ 31" by simp
  from grow_succeeds [OF t(2) low this rt ok] obtain s3 where
    s3: "grow_if_needed t = Inr s3" "open_buffer s3" "cursor s3 = cursor t"
      "capacity s3 = 2 * capacity t" "frame t s3"
      "vgmdata s3 = (if r = InPlace then vgmdata t else Ptr (next_block t) 0)"
      "next_block s3 = (if r = InPlace then next_block t else Suc (next_block t))"
    by blast
  from s3(3,4) t(3) cur1 capt m have "cursor s3 + length [0x64 :: u8] + 1024 \<le> capacity s3"
    by simp
  from appends_run_steady [OF appends_write_all s3(2) this] obtain s4 where
    s4: "steps (map write_u8 [0x64]) s3 = Inr s4" "open_buffer s4"
      "stream s4 = stream s3 @ [0x64]" "frame s3 s4" "steady s3 s4"
    by blast
  from s4(2,3) s3(2,3) t(3) cur1 have cur4: "cursor s4 = c + 4"
    using length_stream [of s4] length_stream [of s3] by simp
  have fr: "frame s s4"
    using s1(4) t(4) s3(5) s4(4) by (blast intro: frame_trans)
  have "steps (map write_u8 [0x00, 0x90, 0x3C, 0x64]) s
      = steps (map write_u8 [0x00, 0x90] @ write_u8 0x3C # map write_u8 [0x64]) s" by simp
  also have "\<dots> = Inr s4"
    unfolding steps_append s1(1) using t(1) s3(1) s4(1) by (simp add: steps.simps)
  finally have run: "note_on s = Inr s4" using d by (simp add: note_on_steps)
  from fr d have "delayq s4 = 0" by (simp add: frame_def)
  with s4(2,5) s3(4) capt cur4 have "playing (2 * cap) (c + 4) s4"
    by (simp add: playing_def steady_def capacity_def)
  moreover have "vgmdata s4 = (if r = InPlace then vgmdata s else Ptr (next_block s) 0)"
    "next_block s4 = (if r = InPlace then next_block s else Suc (next_block s))"
    using s4(5) s3(6,7) t(5) s1(5) by (simp_all add: steady_def)
  ultimately show ?thesis using run fr by blast
qed

lemma note_overflows:
  assumes p: "playing cap c s" and m: "c + 1026 = cap"
    and ok: "alloc_oracle s (alloc_calls s) \<noteq> Fails"
    and wrap: "unat (buffer_size s * 2) < c + 3"
  shows "note_on s = Inl OutOfBounds"
proof -
  from p have ob: "open_buffer s" and d: "delayq s = 0" and cap: "capacity s = cap"
    and cur: "cursor s = c" by (simp_all add: playing_def)
  from m cap cur have "cursor s + length [0x00, 0x90 :: u8] + 1024 \<le> capacity s" by simp
  from appends_run_steady [OF appends_write_all ob this] obtain s1 where
    s1: "steps (map write_u8 [0x00, 0x90]) s = Inr s1" "open_buffer s1"
      "stream s1 = stream s @ [0x00, 0x90]" "frame s s1" "steady s s1"
    by blast
  from s1(2,3) ob cur have cur1: "cursor s1 = c + 2"
    using length_stream [of s1] length_stream [of s] by simp
  from s1(5) cap have cap1: "capacity s1 = cap" by (simp add: steady_def capacity_def)
  from cur1 cap1 m have "cursor s1 < capacity s1" by simp
  from write_u8_then_grow [OF s1(2) this, of "0x3C"] obtain t where
    t: "write_u8 0x3C s1 = grow_if_needed t" "open_buffer t" "cursor t = Suc (cursor s1)"
      "frame s1 t" "steady s1 t" "alloc_calls t = alloc_calls s1"
    by blast
  from t(5) cap1 have capt: "capacity t = cap" by (simp add: steady_def capacity_def)
  from t(3) cur1 capt m have low: "capacity t < cursor t + 1024" by simp
  from ok s1(4,5) t(4,5,6) have okt: "alloc_oracle t (alloc_calls t) \<noteq> Fails"
    by (simp add: frame_def steady_def)
  from wrap t(3,5) s1(5) cur1 have "unat (buffer_size t * 2) < cursor t"
    by (simp add: steady_def)
  from grow_overflow [OF t(2) low okt this] t(1) have "write_u8 0x3C s1 = Inl OutOfBounds"
    by simp
  then have "steps (map write_u8 [0x00, 0x90] @ write_u8 0x3C # map write_u8 [0x64]) s
      = Inl OutOfBounds"
    unfolding steps_append s1(1) by (simp add: steps.simps)
  with d show ?thesis by (simp add: note_on_steps)
qed

lemma stage:
  assumes p: "playing cap c s" and o: "alloc_oracle s = always r" and ok: "r \<noteq> Fails"
    and m: "c + 4 * n + 1026 = cap" and small: "cap < 2 ^ 31"
  shows "\<exists>s'. steps (replicate n note_on @ [note_on]) s = Inr s' \<and>
           playing (2 * cap) (c + 4 * n + 4) s' \<and> frame s s' \<and>
           vgmdata s' = (if r = InPlace then vgmdata s else Ptr (next_block s) 0)"
proof -
  from m have "c + 4 * n + 1024 \<le> cap" by simp
  from note_iter [OF p this] obtain s1 where
    s1: "steps (replicate n note_on) s = Inr s1" "playing cap (c + 4 * n) s1"
      "frame s s1" "steady s s1" by blast
  from o s1(3) have "alloc_oracle s1 (alloc_calls s1) = r" by (simp add: frame_def always_def)
  from note_grows [OF s1(2) m small this ok] obtain s2 where
    s2: "note_on s1 = Inr s2" "playing (2 * cap) (c + 4 * n + 4) s2" "frame s1 s2"
      "vgmdata s2 = (if r = InPlace then vgmdata s1 else Ptr (next_block s1) 0)"
    by blast
  from s1(3) s2(3) have "frame s s2" by (rule frame_trans)
  moreover from s2(4) s1(4)
  have "vgmdata s2 = (if r = InPlace then vgmdata s else Ptr (next_block s) 0)"
    by (simp add: steady_def)
  moreover from s1(1) s2(1) have "steps (replicate n note_on @ [note_on]) s = Inr s2"
    by (simp add: steps_append steps_single)
  ultimately show ?thesis using s2(2) by blast
qed

lemma steps_append_Inr: "steps fs s = Inr t \<Longrightarrow> steps (fs @ gs) s = steps gs t"
  by (simp add: steps_append)

lemma close_stale:
  assumes ob: "open_buffer s" and v: "vgmdata s = Ptr b 0"
    and tl: "track_len_ptr s = Ptr b0 18" and ts: "track_start_ptr s = Ptr b0 22"
    and ne: "b0 \<noteq> b" and c: "cursor s + 1032 \<le> capacity s"
  shows "vgm_close s = Inl StalePointer"
proof -
  define xs where "xs = varlen_bytes (delayq s div 10) @ [0xFF, 0x2F, 0x00]"
  have lx: "length xs \<le> 8" using varlen_bytes_length [of "delayq s div 10"] by (simp add: xs_def)
  have "appends (steps (map write_u8 xs)) xs" by (rule appends_write_all)
  from appends_run_steady [OF this, of "flushed s"] ob c lx
  obtain s1 where s1: "steps (map write_u8 xs) (flushed s) = Inr s1" "open_buffer s1"
      "frame (flushed s) s1" "steady (flushed s) s1"
    by auto
  from s1(4) v have v1: "vgmdata s1 = Ptr b 0" by (simp add: steady_def)
  from open_buffer_data [OF s1(2) v1] have d1: "data s1 = Ptr b (cursor s1)" .
  from s1(3) tl ts have t1: "track_len_ptr s1 = Ptr b0 18" "track_start_ptr s1 = Ptr b0 22"
    by (simp_all add: frame_def)
  show ?thesis
    unfolding vgm_close_steps steps_append xs_def [symmetric] s1(1)
    using d1 t1 ne by (simp add: steps_Inl ptr_diff_def)
qed

lemma open_playing:
  assumes m1: "alloc_oracle s (alloc_calls s) \<noteq> Fails"
    and m2: "alloc_oracle s (Suc (alloc_calls s)) \<noteq> Fails"
  shows "\<exists>s'. vgm_open fname s = Inr s' \<and> playing 50000000 22 s' \<and>
           alloc_oracle s' = alloc_oracle s \<and> vgmdata s' = Ptr (next_block s) 0 \<and>
           track_len_ptr s' = Ptr (next_block s) 18 \<and>
           track_start_ptr s' = Ptr (next_block s) 22 \<and> next_block s' = Suc (next_block s)"
proof -
  from vgm_open_ok [OF m1 m2, of fname] obtain s' where
    s': "vgm_open fname s = Inr s'" "open_buffer s'" "stream s' = smf_prologue"
      "buffer_size s' = 50000000" "vgmdata s' = Ptr (next_block s) 0"
      "track_len_ptr s' = Ptr (next_block s) 18" "track_start_ptr s' = Ptr (next_block s) 22"
      "delayq s' = 0" "alloc_oracle s' = alloc_oracle s" "next_block s' = Suc (next_block s)"
    by blast
  from s'(2,3) have "cursor s' = 22" using length_stream [of s'] by simp
  with s' have "playing 50000000 22 s'" by (simp add: playing_def capacity_def)
  with s' show ?thesis by blast
qed

lemma notes_split:
  "replicate 799999739 note_on =
     (replicate 12499738 note_on @ [note_on]) @ (replicate 12499999 note_on @ [note_on]) @
     (replicate 24999999 note_on @ [note_on]) @ (replicate 49999999 note_on @ [note_on]) @
     (replicate 99999999 note_on @ [note_on]) @ (replicate 199999999 note_on @ [note_on]) @
     (replicate 399999999 note_on @ [note_on])"
proof -
  have g: "replicate n note_on @ [note_on] = replicate (Suc n) note_on" for n
    by (simp add: replicate_append_same)
  show ?thesis unfolding g replicate_add [symmetric] by simp
qed

subsection \<open>Headroom after a write\<close>

lemma write_bytes_then_grow:
  assumes ob: "open_buffer s" and c: "cursor s + length src \<le> capacity s"
  shows "\<exists>t. write_bytes src s = grow_if_needed t \<and> open_buffer t \<and> stream t = stream s @ src \<and>
           cursor t = cursor s + length src \<and> frame s t \<and> steady s t \<and>
           alloc_calls t = alloc_calls s"
proof -
  from ob obtain b c blk where d: "data s = Ptr b c" "vgmdata s = Ptr b 0" "heap s b = Some blk"
    "bsize blk = unat (buffer_size s)" "c \<le> bsize blk" by (rule open_bufferE)
  from c d have le: "c + length src \<le> bsize blk" by (simp add: cursor_def capacity_def)
  let ?t = "s\<lparr>heap := (heap s)(b \<mapsto> blk\<lparr>bytes :=
                (\<lambda>i. if c \<le> i \<and> i < c + length src then src ! (i - c) else bytes blk i)\<rparr>),
              data := Ptr b (c + length src)\<rparr>"
  from d le have "write_bytes src s = grow_if_needed ?t" by (simp add: write_bytes_unfold)
  moreover from d le have "open_buffer ?t" "stream ?t = stream s @ src"
    "cursor ?t = cursor s + length src" "frame s ?t" "steady s ?t" "alloc_calls ?t = alloc_calls s"
    by (simp_all add: open_buffer_def stream_def cursor_def frame_def steady_def memcpy_stream)
  ultimately show ?thesis by blast
qed

lemma grow_keeps_headroom:
  assumes ob: "open_buffer t" and big: "1024 \<le> capacity t" and small: "capacity t < 2 ^ 31"
    and ok: "alloc_oracle t (alloc_calls t) \<noteq> Fails"
  shows "\<exists>s'. grow_if_needed t = Inr s' \<and> headroom s' \<and> stream s' = stream t"
proof (cases "cursor t + 1024 \<le> capacity t")
  case True
  with ob have "grow_if_needed t = Inr t" by (rule grow_steady)
  with ob True show ?thesis by (simp add: headroom_def)
next
  case False
  then have low: "capacity t < cursor t + 1024" by simp
  from grow_succeeds [OF ob low small refl ok] obtain s' where
    s': "grow_if_needed t = Inr s'" "open_buffer s'" "stream s' = stream t"
      "cursor s' = cursor t" "capacity s' = 2 * capacity t"
    by blast
  from ob have "cursor t \<le> capacity t"
    by (auto elim!: open_bufferE simp: cursor_def capacity_def)
  with s' big have "headroom s'" by (simp add: headroom_def)
  with s' show ?thesis by blast
qed

lemma headroom_kept_lemma:
  assumes h: "headroom s" and small: "capacity s < 2 ^ 31"
    and ok: "alloc_oracle s (alloc_calls s) \<noteq> Fails"
  shows "\<exists>s'. write_u8 v s = Inr s' \<and> headroom s' \<and> stream s' = stream s @ [v]"
    and "length src \<le> 1024 \<Longrightarrow>
           \<exists>s'. write_bytes src s = Inr s' \<and> headroom s' \<and> stream s' = stream s @ src"
proof -
  from h have ob: "open_buffer s" and r: "cursor s + 1024 \<le> capacity s"
    by (simp_all add: headroom_def)
  from r have "cursor s < capacity s" by simp
  from write_u8_then_grow [OF ob this, of v] obtain t where
    t: "write_u8 v s = grow_if_needed t" "open_buffer t" "stream t = stream s @ [v]"
      "frame s t" "steady s t" "alloc_calls t = alloc_calls s"
    by blast
  from t(5) r small have ct: "1024 \<le> capacity t" "capacity t < 2 ^ 31"
    by (simp_all add: steady_def capacity_def)
  from ok t(4,6) have "alloc_oracle t (alloc_calls t) \<noteq> Fails" by (simp add: frame_def)
  from grow_keeps_headroom [OF t(2) ct this] t(1,3)
  show "\<exists>s'. write_u8 v s = Inr s' \<and> headroom s' \<and> stream s' = stream s @ [v]" by auto
  assume "length src \<le> 1024"
  with r have "cursor s + length src \<le> capacity s" by simp
  from write_bytes_then_grow [OF ob this] obtain u where
    u: "write_bytes src s = grow_if_needed u" "open_buffer u" "stream u = stream s @ src"
      "frame s u" "steady s u" "alloc_calls u = alloc_calls s"
    by blast
  from u(5) r small have cu: "1024 \<le> capacity u" "capacity u < 2 ^ 31"
    by (simp_all add: steady_def capacity_def)
  from ok u(4,6) have "alloc_oracle u (alloc_calls u) \<noteq> Fails" by (simp add: frame_def)
  from grow_keeps_headroom [OF u(2) cu this] u(1,3)
  show "\<exists>s'. write_bytes src s = Inr s' \<and> headroom s' \<and> stream s' = stream s @ src" by auto
qed

lemma song_open_oracle: "alloc_oracle song_open = always InPlace"
proof -
  from open_playing [OF boot_mallocs, of "''song''"] song_open_facts(1)
  have "alloc_oracle song_open = alloc_oracle (power_on (always InPlace) no_junk)" by auto
  then show ?thesis by (simp add: power_on_def)
qed

subsection \<open>Runs that stay inside the first buffer\<close>

lemma closable_delayq [simp]: "closable (flushed s) = closable s"
  by (simp add: flushed_def)

lemma appends_closable:
  assumes a: "appends f xs" and cl: "closable s" and l: "length xs \<le> 524"
    and r: "cursor s + 524 + 1032 \<le> capacity s" and e: "f s = Inr s'"
  shows "closable s' \<and> cursor s' \<le> cursor s + 524 \<and> capacity s' = capacity s \<and>
         files s' = files s"
proof -
  from cl have ob: "open_buffer s" by (simp add: closable_def)
  from l r have "cursor s + length xs + 1024 \<le> capacity s" by simp
  from appends_run_steady [OF a ob this] e have
    s': "open_buffer s'" "stream s' = stream s @ xs" "frame s s'" "steady s s'" by auto
  from s'(1,2) ob have c: "cursor s' = cursor s + length xs"
    using length_stream [of s'] length_stream [of s] by simp
  from s'(3,4) cl c l r s'(1) show ?thesis
    by (auto simp: closable_def frame_def steady_def capacity_def split: ptr.splits)
qed

lemma appends_returns:
  assumes a: "appends f xs" and cl: "closable s" and l: "length xs \<le> 524"
    and r: "cursor s + 524 + 1032 \<le> capacity s"
  shows "\<exists>s'. f s = Inr s'"
proof -
  from cl have ob: "open_buffer s" by (simp add: closable_def)
  from l r have "cursor s + length xs + 1024 \<le> capacity s" by simp
  from appends_run_steady [OF a ob this] show ?thesis by blast
qed

lemma exec_closable:
  assumes cl: "closable s" and r: "cursor s + 524 + 1032 \<le> capacity s"
  shows "\<exists>s'. exec c s = Inr s' \<and> closable s' \<and> cursor s' \<le> cursor s + 524 \<and>
           capacity s' = capacity s \<and> files s' = files s"
proof (cases c)
  case (Write command port reg val)
  let ?xs = "varlen_bytes (delayq s div 10) @ payload command port reg val"
  have l: "length ?xs \<le> 524"
    using varlen_bytes_length [of "delayq s div 10"] payload_length [of command port reg val]
    by simp
  from cl r have clf: "closable (flushed s)" "cursor (flushed s) + 524 + 1032 \<le> capacity (flushed s)"
    by simp_all
  from appends_returns [OF appends_write_all clf(1) l clf(2)] obtain s' where
    e: "steps (map write_u8 ?xs) (flushed s) = Inr s'" by blast
  from appends_closable [OF appends_write_all clf(1) l clf(2) e] e Write show ?thesis
    by (simp add: vgm_write_steps)
next
  case (WriteTag gamename songid ts)
  let ?n = "of_nat (length (tag_text gamename songid ts)) :: u32"
  let ?xs = "(varlen_bytes (delayq s div 10) @ [0xFF, 0x01] @ varlen_bytes ?n)
               @ tag_text gamename songid ts"
  have l: "length ?xs \<le> 524"
    using varlen_bytes_length [of "delayq s div 10"] varlen_bytes_length [of ?n]
      tag_text_length [of gamename songid ts]
    by simp
  from cl r have clf: "closable (flushed s)" "cursor (flushed s) + 524 + 1032 \<le> capacity (flushed s)"
    by simp_all
  from appends_returns [OF tag_appends clf(1) l clf(2)] obtain s' where
    e: "steps (map write_u8 (varlen_bytes (delayq s div 10) @ [0xFF, 0x01] @ varlen_bytes ?n)
          @ [write_bytes (tag_text gamename songid ts)]) (flushed s) = Inr s'" by blast
  from appends_closable [OF tag_appends clf(1) l clf(2) e] e WriteTag show ?thesis
    by (simp add: vgm_write_tag_steps)
next
  case (Delay delay)
  with cl show ?thesis by (simp add: vgm_delay_def)
next
  case (Poke32 offset d)
  with cl show ?thesis by (simp add: vgm_poke32_def)
next
  case (Poke8 offset d)
  with cl show ?thesis by (simp add: vgm_poke8_def)
next
  case (Datablock dbtype dbsize datablock maxsize mask_arg flags)
  with cl show ?thesis by (simp add: vgm_datablock_def)
next
  case Setloop
  with cl show ?thesis by (simp add: vgm_setloop_def)
qed

lemma run_closable:
  "closable s \<Longrightarrow> cursor s + 524 * length calls + 1032 \<le> capacity s \<Longrightarrow>
     \<exists>s'. steps (map exec calls) s = Inr s' \<and> closable s' \<and> files s' = files s"
proof (induction calls arbitrary: s)
  case Nil
  then show ?case by (simp add: steps.simps)
next
  case (Cons c calls)
  from Cons.prems(2) have "cursor s + 524 + 1032 \<le> capacity s" by simp
  from exec_closable [OF Cons.prems(1) this, of c] obtain t where
    t: "exec c s = Inr t" "closable t" "cursor t \<le> cursor s + 524" "capacity t = capacity s"
      "files t = files s" by blast
  from t(3,4) Cons.prems(2) have "cursor t + 524 * length calls + 1032 \<le> capacity t" by simp
  from Cons.IH [OF t(2) this] obtain s' where
    "steps (map exec calls) t = Inr s'" "closable s'" "files s' = files t" by blast
  with t show ?case by (simp add: steps.simps)
qed

lemma short_session:
  assumes m1: "alloc_oracle s0 (alloc_calls s0) \<noteq> Fails"
    and m2: "alloc_oracle s0 (Suc (alloc_calls s0)) \<noteq> Fails"
    and n: "length calls \<le> 95000"
  shows "\<exists>s'. session fname calls s0 = Inr s' \<and> file_head s' = smf_header \<and>
           length (files s') = Suc (length (files s0))"
proof -
  from vgm_open_ok [OF m1 m2, of fname] obtain s1 where
    s1: "vgm_open fname s0 = Inr s1" "open_buffer s1" "stream s1 = smf_prologue"
      "buffer_size s1 = 50000000" "vgmdata s1 = Ptr (next_block s0) 0"
      "track_len_ptr s1 = Ptr (next_block s0) 18" "track_start_ptr s1 = Ptr (next_block s0) 22"
      "filename s1 = Some (mid_name fname)" "files s1 = files s0"
    by blast
  have c1: "cursor s1 = 22" "capacity s1 = 50000000"
    using length_stream [OF s1(2)] s1(3,4) by (simp_all add: capacity_def)
  with s1 have cl1: "closable s1" by (simp add: closable_def)
  from s1 c1 have h1: "headed (files s0) s1" by (simp add: headed_def smf_prologue_def)
  from n c1 have "cursor s1 + 524 * length calls + 1032 \<le> capacity s1" by simp
  from run_closable [OF cl1 this] obtain s2 where
    s2: "steps (map exec calls) s1 = Inr s2" "closable s2" by blast
  from vgm_close_closable [OF s2(2)] obtain s' where s': "vgm_close s2 = Inr s'" by blast
  from headed_close [OF headed_run [OF h1 s2(1)] s'] obtain name bs where
    f: "files s' = files s0 @ [(name, bs)]" "take 14 bs = smf_header" by blast
  have "session fname calls s0 = Inr s'"
    unfolding session_def
    using s1(1) s2(1) s' by (simp add: steps.simps(2) [of "vgm_open fname"] steps_append steps_single)
  with f show ?thesis by (simp add: file_head_def last_file_files)
qed

section \<open>The claims\<close>

text \<open>
  C10. The stub operations \<open>vgm_poke32\<close>, \<open>vgm_poke8\<close>, \<open>vgm_datablock\<close> and
  \<open>vgm_setloop\<close> are no-ops: for every argument they return, without a fault, the
  very state they were called in, so the buffer contents, the write cursor, the delay
  accumulator, the two track pointers, the file name and every other global are the
  same before and after the call.
\<close>

theorem stubs_change_nothing:
  "vgm_poke32 offset d s = Inr s \<and> vgm_poke8 offset8 d8 s = Inr s \<and>
   vgm_datablock dbtype dbsize datablock maxsize mask_arg flags s = Inr s \<and>
   vgm_setloop s = Inr s"
  by (simp add: vgm_poke32_def vgm_poke8_def vgm_datablock_def vgm_setloop_def)

text \<open>
  C7. Round trip and length bound of the variable-length quantity: for every
  \<open>uint32_t\<close> value \<open>x\<close> in the range 0 to \<open>2^28 - 1\<close>, decoding the bytes that
  \<open>write_varlen\<close> writes for \<open>x\<close> gives \<open>x\<close> again with no byte left over, and the
  encoding has at most 5 bytes.
\<close>

theorem vlq_round_trip:
  "unat x \<le> 2 ^ 28 - 1 \<Longrightarrow>
     vlq_decode (varlen_bytes x) = Some (unat x, []) \<and> length (varlen_bytes x) \<le> 5"
  using vlq_roundtrip [of x "[]"] varlen_bytes_length [of x] by simp

theorem vlq_round_trip_witness:
  "unat (0x0FFFFFFF :: u32) \<le> 2 ^ 28 - 1 \<and>
   vlq_decode (varlen_bytes 0x0FFFFFFF) = Some (unat (0x0FFFFFFF :: u32), []) \<and>
   length (varlen_bytes 0x0FFFFFFF) \<le> 5"
  using vlq_round_trip [of "0x0FFFFFFF"] by simp

text \<open>
  C3, as the claim states it, fails: with \<open>command = 0xFF\<close> and \<open>reg = 0x012F\<close> the
  table of the claim has no payload (\<open>reg\<close> is not 0x2F), but \<open>vgm_write\<close> tests
  \<open>reg & 0xFF\<close> and writes FF 2F 00.
\<close>

theorem event_bytes_counterexample:
  "writable song_open \<and>
   observe stream (vgm_write 0xFF 0 0x012F 0 song_open)
     \<noteq> Inr (stream song_open @ varlen_bytes (delayq song_open div 10)
              @ spec_payload 0xFF 0 0x012F 0)"
proof -
  from vgm_write_ok [OF song_open_writable(1), of "0xFF" 0 "0x012F" 0]
  have "observe stream (vgm_write 0xFF 0 0x012F 0 song_open)
      = Inr (stream song_open @ varlen_bytes (delayq song_open div 10) @ payload 0xFF 0 0x012F 0)"
    by auto
  moreover have "payload 0xFF 0 0x012F 0 = [0xFF, 0x2F, 0x00]" "spec_payload 0xFF 0 0x012F 0 = []"
    by (simp_all add: payload_def spec_payload_def)
  ultimately show ?thesis using song_open_writable(1) by simp
qed

text \<open>
  C3, amended. For every call \<open>vgm_write(command, port, reg, value)\<close> on a writable
  stream, the call returns and the stream has grown by the delta-time (the
  variable-length quantity of \<open>delayq / 10\<close>) followed by exactly the bytes of the
  mapping table keyed on \<open>command & 0xF0\<close> with channel \<open>port & 0x0F\<close>: 0x90, 0x80 and
  0xB0 give status|channel, \<open>reg & 0x7F\<close>, \<open>value & 0x7F\<close>; 0xC0 gives status|channel,
  \<open>value & 0x7F\<close>; 0xE0 gives status|channel and the low and the next 7 bits of the
  14-bit value; command 0xFF with \<open>(reg & 0xFF) == 0x2F\<close> gives FF 2F 00; every other
  call gives no payload byte.
\<close>

theorem event_bytes:
  "writable s \<Longrightarrow>
     observe stream (vgm_write command port reg val s)
       = Inr (stream s @ varlen_bytes (delayq s div 10) @ payload command port reg val)"
  using vgm_write_ok [of s command port reg "val"] by auto

theorem event_bytes_witness:
  "writable song_open \<and>
   observe stream (vgm_write 0x90 0 60 100 song_open)
     = Inr (smf_prologue @ [0x00, 0x90, 0x3C, 0x64])"
  using event_bytes [of song_open "0x90" 0 60 100] song_open_writable(1)
  by (simp add: song_open_facts varlen_small payload_def)

text \<open>
  C4, as the claim states it, fails in one of its three examples: \<open>command == 0xFF\<close>
  with \<open>reg != 0x2F\<close> is not always without payload. With \<open>reg = 0x012F\<close> the low byte
  of \<open>reg\<close> is 0x2F and \<open>vgm_write\<close> writes FF 2F 00 after the delta-time.
\<close>

theorem unsupported_event_counterexample:
  "writable song_open \<and> (0x012F :: u16) \<noteq> 0x2F \<and>
   observe stream (vgm_write 0xFF 0 0x012F 0 song_open)
     \<noteq> Inr (stream song_open @ varlen_bytes (delayq song_open div 10))"
proof -
  from vgm_write_ok [OF song_open_writable(1), of "0xFF" 0 "0x012F" 0]
  have "observe stream (vgm_write 0xFF 0 0x012F 0 song_open)
      = Inr (stream song_open @ varlen_bytes (delayq song_open div 10) @ payload 0xFF 0 0x012F 0)"
    by auto
  moreover have "payload 0xFF 0 0x012F 0 = [0xFF, 0x2F, 0x00]"
    by (simp add: payload_def)
  ultimately show ?thesis using song_open_writable(1) by simp
qed

text \<open>
  C4, amended. For every call \<open>vgm_write(command, port, reg, value)\<close> on a writable
  stream whose command maps to no supported message (\<open>command & 0xF0\<close> is none of
  0x90, 0x80, 0xB0, 0xC0, 0xE0, and not \<open>command == 0xFF\<close> with
  \<open>(reg & 0xFF) == 0x2F\<close>; so for instance \<open>command & 0xF0 == 0xA0\<close>, SysEx 0xF0 and
  0xF7, and 0xFF with any other low byte of \<open>reg\<close>), the pending delta-time is still
  written and no payload byte follows. In particular, when fewer than 10 units are
  pending, \<open>vgm_delay(30)\<close> followed by such a call writes exactly the single byte 0x03
  and leaves the delay accumulator at 0.
\<close>

theorem unsupported_event:
  "writable s \<Longrightarrow> unsupported command reg \<Longrightarrow>
     observe stream (vgm_write command port reg val s)
       = Inr (stream s @ varlen_bytes (delayq s div 10)) \<and>
     (delayq s < 10 \<longrightarrow>
        observe stream (steps [vgm_delay 30, vgm_write command port reg val] s)
          = Inr (stream s @ [0x03]) \<and>
        observe delayq (steps [vgm_delay 30, vgm_write command port reg val] s) = Inr 0)"
proof -
  assume w: "writable s" and u: "unsupported command reg"
  from u have p: "payload command port reg val = []"
    by (auto simp: unsupported_def payload_def Let_def)
  from vgm_write_ok [OF w, of command port reg "val"] p
  have 1: "observe stream (vgm_write command port reg val s)
       = Inr (stream s @ varlen_bytes (delayq s div 10))" by auto
  have 2: "observe stream (steps [vgm_delay 30, vgm_write command port reg val] s)
          = Inr (stream s @ [0x03]) \<and>
        observe delayq (steps [vgm_delay 30, vgm_write command port reg val] s) = Inr 0"
    if d: "delayq s < 10"
  proof -
    let ?t = "s\<lparr>delayq := delayq s + 30\<rparr>"
    from w have wt: "writable ?t" by simp
    from vgm_write_ok [OF wt, of command port reg "val"] p delay30 [OF d]
    obtain s' where s': "vgm_write command port reg val ?t = Inr s'"
        "stream s' = stream s @ [3]" "frame (flushed ?t) s'"
      by (auto simp: varlen_small)
    from s'(3) delay30 [OF d] have "delayq s' = 0" by (simp add: frame_def)
    with s' show ?thesis by (simp add: steps.simps vgm_delay_def)
  qed
  from 1 2 show ?thesis by blast
qed

theorem unsupported_event_witness:
  "writable song_open \<and> unsupported 0xA0 0 \<and> delayq song_open < 10 \<and>
   observe stream (vgm_write 0xA0 0 0 0 song_open) = Inr (smf_prologue @ [0x00]) \<and>
   observe stream (steps [vgm_delay 30, vgm_write 0xA0 0 0 0] song_open)
     = Inr (smf_prologue @ [0x03]) \<and>
   observe delayq (steps [vgm_delay 30, vgm_write 0xA0 0 0 0] song_open) = Inr 0"
proof -
  have u: "unsupported 0xA0 0" by (simp add: unsupported_def)
  have d: "delayq song_open < 10" by (simp add: song_open_facts)
  from unsupported_event [OF song_open_writable(1) u, of 0 0] d u song_open_writable(1)
  show ?thesis by (simp add: song_open_facts varlen_small)
qed

text \<open>
  C1, as the claim states it, fails: with 5 units pending, \<open>vgm_write\<close> writes the
  delta-time 0 and leaves the accumulator at 5. The flush is guarded by
  \<open>delayq >= 10\<close> in all three functions, so a remainder below one tick is carried
  forward, not discarded.
\<close>

theorem delta_flush_counterexample:
  "writable (song_after 5) \<and> delayq (song_after 5) = 5 \<and>
   observe delayq (vgm_write 0x90 0 60 100 (song_after 5)) = Inr 5 \<and>
   observe delayq (vgm_write 0x90 0 60 100 (song_after 5)) \<noteq> Inr 0"
proof -
  from vgm_write_ok [OF song_after_facts(4), of "0x90" 0 60 100 5]
  obtain s' where "vgm_write 0x90 0 60 100 (song_after 5) = Inr s'"
      "frame (flushed (song_after 5)) s'" by blast
  then have "observe delayq (vgm_write 0x90 0 60 100 (song_after 5)) = Inr 5"
    by (simp add: frame_def song_after_facts)
  then show ?thesis by (simp add: song_after_facts)
qed

text \<open>
  C1, amended. For every call of \<open>vgm_write\<close> and \<open>vgm_write_tag\<close> on a writable
  stream, and of \<open>vgm_close\<close> on a closable one, with the delay accumulator holding any
  value \<open>d\<close>: the operation first emits the variable-length quantity of \<open>d / 10\<close>
  (truncating division), once, followed by its own bytes (the event, the text
  meta-event, or FF 2F 00 before the length is patched and the file written). When
  \<open>d >= 10\<close> the accumulator is reset to 0 and the remainder \<open>d mod 10\<close> is discarded;
  when \<open>d < 10\<close> the accumulator keeps its value \<open>d\<close> for the next operation.
\<close>

theorem delta_flush:
  "writable s \<Longrightarrow>
     observe stream (vgm_write command port reg val s)
       = Inr (stream s @ varlen_bytes (delayq s div 10) @ payload command port reg val) \<and>
     observe delayq (vgm_write command port reg val s)
       = Inr (if 10 \<le> delayq s then 0 else delayq s) \<and>
     observe stream (vgm_write_tag gamename songid ts s)
       = Inr (stream s @ varlen_bytes (delayq s div 10) @ tag_bytes gamename songid ts) \<and>
     observe delayq (vgm_write_tag gamename songid ts s)
       = Inr (if 10 \<le> delayq s then 0 else delayq s) \<and>
     (closable s \<longrightarrow>
        observe last_file (vgm_close s)
          = Inr (patch_length (stream s @ varlen_bytes (delayq s div 10) @ [0xFF, 0x2F, 0x00])) \<and>
        observe delayq (vgm_close s) = Inr (if 10 \<le> delayq s then 0 else delayq s))"
proof -
  assume w: "writable s"
  from vgm_write_ok [OF w, of command port reg "val"]
  have 1: "observe stream (vgm_write command port reg val s)
       = Inr (stream s @ varlen_bytes (delayq s div 10) @ payload command port reg val)"
    "observe delayq (vgm_write command port reg val s)
       = Inr (if 10 \<le> delayq s then 0 else delayq s)"
    by (auto simp: frame_def)
  from vgm_write_tag_ok [OF w, of gamename songid ts]
  have 2: "observe stream (vgm_write_tag gamename songid ts s)
       = Inr (stream s @ varlen_bytes (delayq s div 10) @ tag_bytes gamename songid ts)"
     "observe delayq (vgm_write_tag gamename songid ts s)
       = Inr (if 10 \<le> delayq s then 0 else delayq s)"
    by (auto simp: frame_def)
  have 3: "observe last_file (vgm_close s)
          = Inr (patch_length (stream s @ varlen_bytes (delayq s div 10) @ [0xFF, 0x2F, 0x00])) \<and>
        observe delayq (vgm_close s) = Inr (if 10 \<le> delayq s then 0 else delayq s)"
    if "closable s"
    using vgm_close_closable [OF that] by (auto simp: last_file_files)
  from 1 2 3 show ?thesis by blast
qed

theorem delta_flush_witness:
  "writable (song_after 25) \<and> closable (song_after 25) \<and> delayq (song_after 25) = 25 \<and>
   observe stream (vgm_write 0x90 0 60 100 (song_after 25))
     = Inr (smf_prologue @ [0x02, 0x90, 0x3C, 0x64]) \<and>
   observe delayq (vgm_write 0x90 0 60 100 (song_after 25)) = Inr 0 \<and>
   observe stream (vgm_write_tag None 0 [] (song_after 25))
     = Inr (smf_prologue @ [0x02] @ tag_bytes None 0 []) \<and>
   observe delayq (vgm_write_tag None 0 [] (song_after 25)) = Inr 0 \<and>
   observe last_file (vgm_close (song_after 25))
     = Inr (patch_length (smf_prologue @ [0x02, 0xFF, 0x2F, 0x00])) \<and>
   observe delayq (vgm_close (song_after 25)) = Inr 0"
  using delta_flush [where s = "song_after 25" and command = "0x90" and port = 0 and reg = 60
      and val = 100 and gamename = None and songid = 0 and ts = "[]"]
  by (simp add: song_after_facts varlen_small payload_def)

text \<open>
  C2, as the claim states it, fails in its last part: the track of the scenario has
  the 12 bytes the claim lists (4 + 4 + 4, the end-of-track event with its delta-time
  byte), and \<open>vgm_close\<close> patches the length field to 12, not to 11.
\<close>

theorem note_on_off_scenario_counterexample:
  "observe track_length_field (session ''song'' scenario (power_on (always InPlace) no_junk))
     \<noteq> Inr (be32_bytes 11)"
  using scenario_observed(2) [OF boot_mallocs] by (simp add: be32_bytes_def)

text \<open>
  C2, amended. Starting from \<open>vgm_open("song")\<close> with both allocations granted, the
  calls \<open>vgm_write(0x90, 0, 60, 100)\<close>, \<open>vgm_delay(50)\<close>, \<open>vgm_write(0x80, 0, 60, 0)\<close>
  and \<open>vgm_close()\<close> write a file whose track payload is exactly 00 90 3C 64,
  05 80 3C 00, 00 FF 2F 00 and whose patched 4-byte track length field is 12.
\<close>

theorem note_on_off_scenario:
  "alloc_oracle s0 (alloc_calls s0) \<noteq> Fails \<Longrightarrow>
   alloc_oracle s0 (Suc (alloc_calls s0)) \<noteq> Fails \<Longrightarrow>
     observe track_payload (session ''song'' scenario s0)
       = Inr [0x00, 0x90, 0x3C, 0x64, 0x05, 0x80, 0x3C, 0x00, 0x00, 0xFF, 0x2F, 0x00] \<and>
     observe track_length_field (session ''song'' scenario s0) = Inr (be32_bytes 12)"
  using scenario_observed [of s0] by (simp add: be32_bytes_def)

theorem note_on_off_scenario_witness:
  "alloc_oracle (power_on (always InPlace) no_junk)
     (alloc_calls (power_on (always InPlace) no_junk)) \<noteq> Fails \<and>
   alloc_oracle (power_on (always InPlace) no_junk)
     (Suc (alloc_calls (power_on (always InPlace) no_junk))) \<noteq> Fails \<and>
   observe track_payload (session ''song'' scenario (power_on (always InPlace) no_junk))
     = Inr [0x00, 0x90, 0x3C, 0x64, 0x05, 0x80, 0x3C, 0x00, 0x00, 0xFF, 0x2F, 0x00] \<and>
   observe track_length_field (session ''song'' scenario (power_on (always InPlace) no_junk))
     = Inr [0, 0, 0, 12]"
  using note_on_off_scenario [OF boot_mallocs] boot_mallocs by (simp add: be32_bytes_def)

text \<open>
  C8, as the claim states it, fails: the source has no error to surface (every
  function returns \<open>void\<close> and none tests the state of the stream). A second
  \<open>vgm_close\<close> runs into the null pointer that the first one left in \<open>data\<close>.
\<close>

theorem double_close_counterexample:
  "steps [vgm_open ''song'', vgm_close, vgm_close] (power_on (always InPlace) no_junk)
     = Inl NullDeref \<and>
   steps [vgm_open ''song'', vgm_close, vgm_close] (power_on (always InPlace) no_junk)
     \<noteq> Inl InvalidState"
proof -
  from vgm_close_closable [OF song_open_writable(2)] obtain s' where
    s': "vgm_close song_open = Inr s'" "data s' = Null" by blast
  from s'(2) have "vgm_close s' = Inl NullDeref" by (rule vgm_close_null)
  with s'(1) song_open_facts(1) show ?thesis by (simp add: steps.simps)
qed

text \<open>
  C8, amended. After a \<open>vgm_close\<close> that returned, a second \<open>vgm_close\<close> surfaces no
  \<open>InvalidState\<close> error: its first statement, the write of the delta-time, stores
  through the null pointer \<open>data\<close> (undefined behaviour in C, the fault \<open>NullDeref\<close>
  here). The call ends there, before its own \<open>write_file\<close> and \<open>free\<close>, so the
  output is not written and the buffer not released again.
\<close>

theorem double_close:
  "vgm_close s = Inr s' \<Longrightarrow>
     write_pending_delta s' = Inl NullDeref \<and> vgm_close s' = Inl NullDeref"
  using vgm_close_clears [of s s'] by (simp add: pending_delta_null vgm_close_null)

theorem double_close_witness:
  "vgm_close song_open = Inr song_closed \<and>
   write_pending_delta song_closed = Inl NullDeref \<and> vgm_close song_closed = Inl NullDeref"
proof -
  from vgm_close_closable [OF song_open_writable(2)] obtain s' where
    "vgm_close song_open = Inr s'" by blast
  then have e: "vgm_close song_open = Inr song_closed" by (simp add: song_closed_def)
  from double_close [OF e] e show ?thesis by simp
qed

text \<open>
  C5. Header invariant: for every file name and every sequence of calls of
  \<open>vgm_write\<close>, \<open>vgm_write_tag\<close>, \<open>vgm_delay\<close> (and of the stubs) between \<open>vgm_open\<close>
  and \<open>vgm_close\<close>, started with no stream open, whenever the run reaches the end of
  \<open>vgm_close\<close> it has written one more file, and that file begins with the 14 bytes
  "MThd", big-endian 32-bit 6, big-endian 16-bit 0 (format), 1 (track count) and 480
  (division), whatever the events were and whatever the allocator answered.
\<close>

theorem header_invariant:
  "data s0 = Null \<Longrightarrow> session fname calls s0 = Inr s' \<Longrightarrow>
     take 14 (last_file s') = [0x4D, 0x54, 0x68, 0x64, 0, 0, 0, 6, 0, 0, 0, 1, 0x01, 0xE0] \<and>
     take 14 (last_file s') = smf_header \<and>
     length (files s') = Suc (length (files s0))"
proof -
  assume n: "data s0 = Null" and r: "session fname calls s0 = Inr s'"
  from r have "steps (vgm_open fname # map exec calls @ [vgm_close]) s0 = Inr s'"
    by (simp add: session_def)
  then obtain s1 where o: "vgm_open fname s0 = Inr s1"
    and r1: "steps (map exec calls @ [vgm_close]) s1 = Inr s'" by (rule steps_ConsE)
  from r1 obtain s2 where m: "steps (map exec calls) s1 = Inr s2"
    and r2: "steps [vgm_close] s2 = Inr s'" by (rule steps_appendE)
  from r2 have c: "vgm_close s2 = Inr s'" by (simp add: steps_single)
  from vgm_open_headed [OF n o] show ?thesis
  proof
    assume "headed (files s0) s1"
    from headed_close [OF headed_run [OF this m] c] obtain name bs where
      "files s' = files s0 @ [(name, bs)]" "take 14 bs = smf_header" by blast
    then show ?thesis by (simp add: last_file_files smf_header_bytes)
  next
    assume "data s1 = Null"
    from vgm_close_null [OF null_run [OF this m]] c show ?thesis by simp
  qed
qed

theorem header_invariant_witness:
  "data (power_on (always InPlace) no_junk) = Null \<and>
   session ''song'' scenario (power_on (always InPlace) no_junk) = Inr scenario_end \<and>
   take 14 (last_file scenario_end) = [0x4D, 0x54, 0x68, 0x64, 0, 0, 0, 6, 0, 0, 0, 1, 0x01, 0xE0] \<and>
   take 14 (last_file scenario_end) = smf_header \<and>
   length (files scenario_end) = Suc (length (files (power_on (always InPlace) no_junk)))"
proof -
  have n: "data (power_on (always InPlace) no_junk) = Null" by (simp add: power_on_def)
  from scenario_run [OF boot_mallocs] have
    r: "session ''song'' scenario (power_on (always InPlace) no_junk) = Inr scenario_end"
    by (auto simp: scenario_end_def)
  from header_invariant [OF n r] n r show ?thesis by (simp add: smf_header_bytes)
qed

text \<open>
  C6. The length patch fails once the buffer has moved. \<open>vgm_open\<close> keeps the place of
  the length field and the start of the payload as raw pointers into the first
  block. With an allocator that moves the block when \<open>realloc\<close> grows it, the 12499739th
  note-on event (the cursor passes 50000000 - 1024) relocates the buffer, and
  \<open>vgm_close\<close> then computes \<open>data - track_start_ptr\<close> from pointers into two different
  blocks and would patch the released block: the run ends in the fault
  \<open>StalePointer\<close>, no file is written, and the length field of the live buffer still
  holds the placeholder 0.
\<close>

theorem length_patch_after_relocation:
  "session ''song'' (replicate 12499739 (Write 0x90 0 60 100))
     (power_on (always Relocates) no_junk) = Inl StalePointer"
proof -
  let ?b = "power_on (always Relocates) no_junk"
  have o: "alloc_oracle ?b = always Relocates" "next_block ?b = 0" by (simp_all add: power_on_def)
  have ok: "Relocates \<noteq> Fails" by simp
  have m: "alloc_oracle ?b (alloc_calls ?b) \<noteq> Fails" "alloc_oracle ?b (Suc (alloc_calls ?b)) \<noteq> Fails"
    by (simp_all add: power_on_def always_def)
  from open_playing [OF m, of "''song''"] o obtain t0 where
    t0: "vgm_open ''song'' ?b = Inr t0" "playing 50000000 22 t0"
      "alloc_oracle t0 = always Relocates" "vgmdata t0 = Ptr 0 0" "track_len_ptr t0 = Ptr 0 18"
      "track_start_ptr t0 = Ptr 0 22" "next_block t0 = Suc 0"
    by auto
  from stage [OF t0(2,3) ok, of 12499738] t0(7) obtain t1 where
    t1: "steps (replicate 12499738 note_on @ [note_on]) t0 = Inr t1"
      "playing 100000000 49998978 t1" "frame t0 t1" "vgmdata t1 = Ptr (Suc 0) 0" by auto
  from t1(3) t0(5,6) have p1: "track_len_ptr t1 = Ptr 0 18" "track_start_ptr t1 = Ptr 0 22"
    by (simp_all add: frame_def)
  from t1(2) have ob1: "open_buffer t1" and c1: "cursor t1 + 1032 \<le> capacity t1"
    by (simp_all add: playing_def)
  have "(0::nat) \<noteq> Suc 0" by simp
  from close_stale [OF ob1 t1(4) p1 this c1] have cl: "vgm_close t1 = Inl StalePointer" .
  define G0 where "G0 = replicate 12499738 note_on @ [note_on]"
  have "replicate 12499739 note_on = replicate (12499738 + 1) note_on" by simp
  also have "\<dots> = replicate 12499738 note_on @ replicate 1 note_on" by (rule replicate_add)
  also have "replicate 1 note_on = [note_on]" by simp
  finally have r: "replicate 12499739 note_on = G0" by (simp only: G0_def)
  have "map exec (replicate 12499739 (Write 0x90 0 60 100)) = replicate 12499739 note_on"
    by (simp only: map_replicate exec.simps note_on_def)
  with r have e: "map exec (replicate 12499739 (Write 0x90 0 60 100)) = G0" by simp
  note g = t1(1) [folded G0_def]
  have h0: "steps (vgm_open ''song'' # fs) ?b = steps fs t0" for fs
    using t0(1) by (simp add: steps.simps)
  show ?thesis
    unfolding session_def e
    by (simp only: h0 g [THEN steps_append_Inr] steps_single cl)
qed

text \<open>
  C9. The headroom invariant fails when the capacity passes \<open>2^31\<close>, although every
  reallocation succeeds: \<open>buffer_size * 2\<close> is a \<open>uint32_t\<close> product. After
  \<open>vgm_open("song")\<close> and 799999738 note-on events the capacity is 3200000000 and the
  cursor 1026 bytes below it; the third byte of the next event leaves 1023 bytes free,
  \<open>realloc\<close> is asked for \<open>3200000000 * 2 mod 2^32 = 2105032704\<close> bytes and shrinks
  the block below the cursor, and \<open>data = vgmdata + offset\<close> points past the end of the
  allocation (the fault \<open>OutOfBounds\<close>).
\<close>

theorem headroom_overflow:
  "steps (vgm_open ''song'' # replicate 799999739 (vgm_write 0x90 0 60 100))
     (power_on (always InPlace) no_junk) = Inl OutOfBounds"
proof -
  let ?b = "power_on (always InPlace) no_junk"
  have o: "alloc_oracle ?b = always InPlace" by (simp add: power_on_def)
  have ok: "InPlace \<noteq> Fails" by simp
  from open_playing [OF boot_mallocs, of "''song''"] o obtain t0 where
    t0: "vgm_open ''song'' ?b = Inr t0" "playing 50000000 22 t0" "alloc_oracle t0 = always InPlace"
    by auto
  from stage [OF t0(2,3) ok, of 12499738] obtain t1 where
    t1: "steps (replicate 12499738 note_on @ [note_on]) t0 = Inr t1"
      "playing 100000000 49998978 t1" "frame t0 t1" by auto
  from t0(3) t1(3) have o1: "alloc_oracle t1 = always InPlace" by (simp add: frame_def)
  from stage [OF t1(2) o1 ok, of 12499999] obtain t2 where
    t2: "steps (replicate 12499999 note_on @ [note_on]) t1 = Inr t2"
      "playing 200000000 99998978 t2" "frame t1 t2" by auto
  from o1 t2(3) have o2: "alloc_oracle t2 = always InPlace" by (simp add: frame_def)
  from stage [OF t2(2) o2 ok, of 24999999] obtain t3 where
    t3: "steps (replicate 24999999 note_on @ [note_on]) t2 = Inr t3"
      "playing 400000000 199998978 t3" "frame t2 t3" by auto
  from o2 t3(3) have o3: "alloc_oracle t3 = always InPlace" by (simp add: frame_def)
  from stage [OF t3(2) o3 ok, of 49999999] obtain t4 where
    t4: "steps (replicate 49999999 note_on @ [note_on]) t3 = Inr t4"
      "playing 800000000 399998978 t4" "frame t3 t4" by auto
  from o3 t4(3) have o4: "alloc_oracle t4 = always InPlace" by (simp add: frame_def)
  from stage [OF t4(2) o4 ok, of 99999999] obtain t5 where
    t5: "steps (replicate 99999999 note_on @ [note_on]) t4 = Inr t5"
      "playing 1600000000 799998978 t5" "frame t4 t5" by auto
  from o4 t5(3) have o5: "alloc_oracle t5 = always InPlace" by (simp add: frame_def)
  from stage [OF t5(2) o5 ok, of 199999999] obtain t6 where
    t6: "steps (replicate 199999999 note_on @ [note_on]) t5 = Inr t6"
      "playing 3200000000 1599998978 t6" "frame t5 t6" by auto
  from o5 t6(3) have o6: "alloc_oracle t6 = always InPlace" by (simp add: frame_def)
  from note_iter [OF t6(2), of 399999999] obtain t7 where
    t7: "steps (replicate 399999999 note_on) t6 = Inr t7"
      "playing 3200000000 3199998974 t7" "frame t6 t7" by auto
  from o6 t7(3) have o7: "alloc_oracle t7 (alloc_calls t7) \<noteq> Fails"
    by (simp add: frame_def always_def)
  from t7(2) have "unat (buffer_size t7) = unat (3200000000 :: u32)"
    by (simp add: playing_def capacity_def)
  then have "buffer_size t7 = 3200000000" by (simp only: word_unat_eq_iff)
  then have "unat (buffer_size t7 * 2) < 3199998974 + 3" by simp
  from note_overflows [OF t7(2) _ o7 this] have t8: "note_on t7 = Inl OutOfBounds" by simp
  define G0 where "G0 = replicate 12499738 note_on @ [note_on]"
  define G1 where "G1 = replicate 12499999 note_on @ [note_on]"
  define G2 where "G2 = replicate 24999999 note_on @ [note_on]"
  define G3 where "G3 = replicate 49999999 note_on @ [note_on]"
  define G4 where "G4 = replicate 99999999 note_on @ [note_on]"
  define G5 where "G5 = replicate 199999999 note_on @ [note_on]"
  define G6 where "G6 = replicate 399999999 note_on"
  have split: "replicate 799999739 note_on = G0 @ G1 @ G2 @ G3 @ G4 @ G5 @ G6 @ [note_on]"
    unfolding G0_def G1_def G2_def G3_def G4_def G5_def G6_def by (rule notes_split)
  note g = t1(1) [folded G0_def] t2(1) [folded G1_def] t3(1) [folded G2_def]
    t4(1) [folded G3_def] t5(1) [folded G4_def] t6(1) [folded G5_def] t7(1) [folded G6_def]
  have h0: "steps (vgm_open ''song'' # fs) ?b = steps fs t0" for fs
    using t0(1) by (simp add: steps.simps)
  have "steps (vgm_open ''song'' # G0 @ G1 @ G2 @ G3 @ G4 @ G5 @ G6 @ [note_on]) ?b
      = Inl OutOfBounds"
    by (simp only: h0 g [THEN steps_append_Inr] steps_single t8)
  then have "steps (vgm_open ''song'' # replicate 799999739 note_on) ?b = Inl OutOfBounds"
    by (simp only: split)
  then show ?thesis by (simp only: note_on_def)
qed

section \<open>Further properties\<close>

text \<open>
  Lines 326 to 360. When the buffer has not moved since \<open>vgm_open\<close>
  (the track pointers still point into the block of \<open>vgmdata\<close>, at offsets 18 and 22) and
  the closing bytes fit, \<open>vgm_close\<close> returns, and in the file it writes the length field
  at offset 18 is the big-endian count of the bytes after it; these bytes are the track
  written so far, the last delta time and the End of Track event \<open>FF 2F 00\<close>.
\<close>

theorem length_patch_in_place:
  "closable s \<Longrightarrow>
     observe length_field_matches (vgm_close s) = Inr True \<and>
     observe track_payload (vgm_close s)
       = Inr (drop 22 (stream s) @ varlen_bytes (delayq s div 10) @ [0xFF, 0x2F, 0x00])"
proof -
  assume cl: "closable s"
  let ?st = "stream s @ varlen_bytes (delayq s div 10) @ [0xFF, 0x2F, 0x00]"
  from vgm_close_closable [OF cl] obtain s' name where
    s': "vgm_close s = Inr s'" "files s' = files s @ [(name, patch_length ?st)]" by blast
  from s'(2) have lf: "last_file s' = patch_length ?st" by (rule last_file_files)
  from cl have l: "22 \<le> length (stream s)" by (simp add: closable_def length_stream)
  then have "22 \<le> length ?st" by simp
  from patch_length_field [OF this] l
  have "length_field_matches s'"
    by (simp add: length_field_matches_def track_length_field_def track_payload_def lf
          patch_length_drop)
  moreover from l have "track_payload s' = drop 22 (stream s) @ varlen_bytes (delayq s div 10)
      @ [0xFF, 0x2F, 0x00]"
    by (simp add: track_payload_def lf patch_length_drop)
  ultimately show ?thesis using s'(1) by simp
qed

theorem length_patch_in_place_witness:
  "closable song_open \<and>
   observe length_field_matches (vgm_close song_open) = Inr True \<and>
   observe track_payload (vgm_close song_open) = Inr [0x00, 0xFF, 0x2F, 0x00]"
  using length_patch_in_place [OF song_open_writable(2)] song_open_writable(2)
  by (simp add: song_open_facts varlen_small)

text \<open>
  Lines 58 to 86. The headroom of 1024 bytes is kept
  by each write: starting from an open stream with at least 1024 bytes free and a buffer of
  less than \<open>2\<^sup>3\<^sup>1\<close> bytes, and when the next \<open>realloc\<close> does not fail, \<open>write_u8\<close> returns
  with the byte appended and the headroom restored, and so does \<open>write_bytes\<close> for at most
  1024 bytes.
\<close>

theorem headroom_kept:
  "headroom s \<Longrightarrow> capacity s < 2 ^ 31 \<Longrightarrow> alloc_oracle s (alloc_calls s) \<noteq> Fails \<Longrightarrow>
     observe headroom (write_u8 v s) = Inr True \<and>
     observe stream (write_u8 v s) = Inr (stream s @ [v]) \<and>
     (length src \<le> 1024 \<longrightarrow>
        observe headroom (write_bytes src s) = Inr True \<and>
        observe stream (write_bytes src s) = Inr (stream s @ src))"
  using headroom_kept_lemma(1) [of s v] headroom_kept_lemma(2) [of s src] by auto

theorem headroom_kept_witness:
  "headroom song_open \<and> capacity song_open < 2 ^ 31 \<and>
   alloc_oracle song_open (alloc_calls song_open) \<noteq> Fails \<and>
   length (ascii ''MTrk'') \<le> 1024 \<and>
   observe headroom (write_u8 0x2A song_open) = Inr True \<and>
   observe stream (write_u8 0x2A song_open) = Inr (smf_prologue @ [0x2A]) \<and>
   observe headroom (write_bytes (ascii ''MTrk'') song_open) = Inr True \<and>
   observe stream (write_bytes (ascii ''MTrk'') song_open) = Inr (smf_prologue @ ascii ''MTrk'')"
proof -
  have h: "headroom song_open" "capacity song_open < 2 ^ 31"
    "alloc_oracle song_open (alloc_calls song_open) \<noteq> Fails"
    using song_open_facts song_open_cursor
    by (simp_all add: headroom_def song_open_oracle always_def)
  from headroom_kept [OF h, of "0x2A" "ascii ''MTrk''"] h show ?thesis
    by (simp add: song_open_facts)
qed

text \<open>
  Lines 125 to 360. A session of at most 95000 API calls
  whose two \<open>malloc\<close> calls succeed returns, whatever \<open>realloc\<close> would do, since the first
  buffer of 50000000 bytes is never filled to the point of growing; the file it writes
  starts with the 14 bytes of the header chunk.
\<close>

theorem short_sessions_return:
  "alloc_oracle s0 (alloc_calls s0) \<noteq> Fails \<Longrightarrow>
   alloc_oracle s0 (Suc (alloc_calls s0)) \<noteq> Fails \<Longrightarrow> length calls \<le> 95000 \<Longrightarrow>
     observe file_head (session fname calls s0) = Inr smf_header"
  using short_session [of s0 calls fname] by auto

theorem short_sessions_return_witness:
  "alloc_oracle (power_on (always Relocates) no_junk)
     (alloc_calls (power_on (always Relocates) no_junk)) \<noteq> Fails \<and>
   alloc_oracle (power_on (always Relocates) no_junk)
     (Suc (alloc_calls (power_on (always Relocates) no_junk))) \<noteq> Fails \<and>
   length scenario \<le> 95000 \<and>
   observe file_head (session ''song'' scenario (power_on (always Relocates) no_junk))
     = Inr smf_header"
proof -
  have m: "alloc_oracle (power_on (always Relocates) no_junk)
      (alloc_calls (power_on (always Relocates) no_junk)) \<noteq> Fails"
    "alloc_oracle (power_on (always Relocates) no_junk)
      (Suc (alloc_calls (power_on (always Relocates) no_junk))) \<noteq> Fails"
    by (simp_all add: power_on_def always_def)
  have l: "length scenario \<le> 95000" by (simp add: scenario_def)
  from short_sessions_return [OF m l, of "''song''"] m l show ?thesis by simp
qed

text \<open>
  Lines 105 to 120. The variable-length quantities of 0, 127 and 128
  are the bytes \<open>00\<close>, \<open>7F\<close> and \<open>81 00\<close>.
\<close>

theorem vlq_canonical_forms:
  "varlen_bytes 0 = [0x00] \<and> varlen_bytes 127 = [0x7F] \<and> varlen_bytes 128 = [0x81, 0x00]"
  by (simp add: varlen_bytes_def varlen_loop.simps)

end
